theory Spec2Isabelle
  imports Complex_Main "HOL-Library.Stream"
begin

section \<open>The k-armed bandit testbed and the epsilon-greedy agent\<close>

text \<open>
  A shallow embedding of \<^verbatim>\<open>rl/environment/bandits/k_armed_bandit.py\<close> and of the class
  \<^verbatim>\<open>EpsilonGreedy\<close> of \<^verbatim>\<open>rl/algorithms/bandits/epsilon_greedy.py\<close>.

  Conventions of the embedding:
  \<^item> Rewards, estimates and the parameters \<^verbatim>\<open>epsilon\<close>, \<^verbatim>\<open>alpha\<close> are real numbers; a double
    is the real number it denotes. The constant-step-size rule rounds each of its three
    operations to double precision, as the program does. The sample-average rule and the
    sampling of rewards are in exact arithmetic.
  \<^item> Python integers are \<open>int\<close>. The entries of \<^verbatim>\<open>action_counts\<close> (a NumPy integer array)
    are \<open>int\<close> as well; a 64-bit counter would wrap only after \<open>2^63\<close> updates of one action.
  \<^item> A raised exception is the left summand of \<open>error + 'a\<close>.
  \<^item> The global random stream of NumPy is an explicit stream of draws that every sampling
    operation consumes from and hands back.
  \<^item> Mutation is state passing: an operation on an object returns the object after the call.
\<close>

subsection \<open>Exceptions and sequencing\<close>

datatype error = ValueError | IndexError

definition then_do :: "error + 'a \<Rightarrow> ('a \<Rightarrow> error + 'b) \<Rightarrow> error + 'b" where
  "then_do m f = (case m of Inl e \<Rightarrow> Inl e | Inr x \<Rightarrow> f x)"

subsection \<open>The NumPy operations the source calls\<close>

text \<open>
  One element of the random stream. \<open>raw_uniform\<close> is the integer behind
  \<^verbatim>\<open>np.random.random()\<close>, \<open>raw_pick\<close> the integer behind a uniform choice among finitely many
  values, \<open>gauss\<close> a standard normal sample.
\<close>

record draw =
  raw_uniform :: nat
  raw_pick :: nat
  gauss :: real

text \<open>\<^verbatim>\<open>np.random.random()\<close>: a multiple of \<open>2^-53\<close> in the half-open interval from 0 to 1.\<close>

definition np_random_random :: "draw \<Rightarrow> real" where
  "np_random_random d = real (raw_uniform d mod 2 ^ 53) / 2 ^ 53"

text \<open>\<^verbatim>\<open>np.random.randint(n)\<close>: a value in \<open>[0, n)\<close>; \<^verbatim>\<open>ValueError\<close> when \<open>n \<le> 0\<close>.\<close>

definition np_random_randint :: "int \<Rightarrow> draw \<Rightarrow> error + int" where
  "np_random_randint n d =
     (if n \<le> 0 then Inl ValueError else Inr (int (raw_pick d mod nat n)))"

text \<open>
  \<^verbatim>\<open>np.random.seed(seed)\<close>: installs the stream that the generator \<open>gen\<close> derives from the
  seed; \<^verbatim>\<open>ValueError\<close> unless the seed is between 0 and \<open>2^32 - 1\<close>.
\<close>

definition np_random_seed :: "(int \<Rightarrow> draw stream) \<Rightarrow> int \<Rightarrow> error + draw stream" where
  "np_random_seed gen seed =
     (if 0 \<le> seed \<and> seed < 2 ^ 32 then Inr (gen seed) else Inl ValueError)"

text \<open>
  \<^verbatim>\<open>np.random.normal(loc, scale)\<close>: \<open>loc + scale * z\<close> for a standard normal \<open>z\<close>;
  \<^verbatim>\<open>ValueError\<close> for a negative scale.
\<close>

definition np_random_normal :: "real \<Rightarrow> real \<Rightarrow> draw \<Rightarrow> error + real" where
  "np_random_normal loc scale d =
     (if scale < 0 then Inl ValueError else Inr (loc + scale * gauss d))"

text \<open>
  \<^verbatim>\<open>np.random.normal(loc, scale, size)\<close>: \<open>size\<close> samples, taken from the stream in order;
  \<^verbatim>\<open>ValueError\<close> for a negative scale or a negative size.
\<close>

definition np_random_normal_size ::
    "real \<Rightarrow> real \<Rightarrow> int \<Rightarrow> draw stream \<Rightarrow> error + (real list \<times> draw stream)" where
  "np_random_normal_size loc scale n ds =
     (if scale < 0 \<or> n < 0 then Inl ValueError
      else Inr (map (\<lambda>d. loc + scale * gauss d) (stake (nat n) ds), sdrop (nat n) ds))"

text \<open>
  \<^verbatim>\<open>np.argmax\<close>: a scan from the left that moves to a new index only on a strictly larger
  value; \<^verbatim>\<open>ValueError\<close> on an empty array.
\<close>

fun argmax_scan :: "real list \<Rightarrow> nat \<Rightarrow> nat \<Rightarrow> real \<Rightarrow> nat" where
  "argmax_scan [] i best m = best"
| "argmax_scan (x # xs) i best m =
     (if m < x then argmax_scan xs (Suc i) i x else argmax_scan xs (Suc i) best m)"

definition np_argmax :: "real list \<Rightarrow> error + nat" where
  "np_argmax xs = (case xs of [] \<Rightarrow> Inl ValueError | x # ys \<Rightarrow> Inr (argmax_scan ys 1 0 x))"

text \<open>\<^verbatim>\<open>np.zeros(n)\<close> and \<^verbatim>\<open>np.full(n, v)\<close>: \<^verbatim>\<open>ValueError\<close> for a negative length.\<close>

definition np_zeros :: "int \<Rightarrow> error + ('a::zero) list" where
  "np_zeros n = (if n < 0 then Inl ValueError else Inr (replicate (nat n) 0))"

definition np_full :: "int \<Rightarrow> 'a \<Rightarrow> error + 'a list" where
  "np_full n v = (if n < 0 then Inl ValueError else Inr (replicate (nat n) v))"

text \<open>
  Indexing an array of length \<open>n\<close> with a Python integer: an index from \<open>-n\<close> to \<open>-1\<close> counts
  from the end, anything outside \<open>[-n, n)\<close> raises \<^verbatim>\<open>IndexError\<close>.
\<close>

definition np_index :: "nat \<Rightarrow> int \<Rightarrow> error + nat" where
  "np_index n i =
     (if 0 \<le> i \<and> i < int n then Inr (nat i)
      else if - int n \<le> i \<and> i < 0 then Inr (nat (int n + i))
      else Inl IndexError)"

subsection \<open>Double-precision arithmetic\<close>

text \<open>
  The binary exponent of a double's binade, from \<open>-1022\<close> (which also serves zero and the
  subnormal numbers) to 1023, found by counting up from \<open>-1022\<close>.
\<close>

fun exponent_from :: "nat \<Rightarrow> int \<Rightarrow> real \<Rightarrow> int" where
  "exponent_from 0 e x = e"
| "exponent_from (Suc n) e x =
     (if 2 powi (e + 1) \<le> x then exponent_from n (e + 1) x else e)"

definition float64_exponent :: "real \<Rightarrow> int" where
  "float64_exponent x = exponent_from 2045 (- 1022) \<bar>x\<bar>"

text \<open>Rounding to the nearest integer, a tie going to the even one.\<close>

definition round_half_even :: "real \<Rightarrow> int" where
  "round_half_even y =
     (let f = \<lfloor>y\<rfloor>; d = y - of_int f
      in if d < 1 / 2 then f else if 1 / 2 < d then f + 1 else if even f then f else f + 1)"

text \<open>
  Rounding a real number to double precision: to the nearest multiple of the spacing of
  the doubles in its binade, which is the binade's power of two divided by \<open>2^52\<close>; ties to
  even. The program's doubles also include the infinities and NaN, which no real number
  is: where the rounded value reaches \<open>2^1024\<close> the program stores an infinity, and the
  value of \<open>round64\<close> has no counterpart in the program.
\<close>

definition round64 :: "real \<Rightarrow> real" where
  "round64 x =
     of_int (round_half_even (x / 2 powi (float64_exponent x - 52)))
       * 2 powi (float64_exponent x - 52)"

text \<open>The finite doubles.\<close>

definition is_float64 :: "real \<Rightarrow> bool" where
  "is_float64 x \<longleftrightarrow> \<bar>x\<bar> < 2 ^ 1024 \<and> round64 x = x"

text \<open>Addition, subtraction and multiplication of doubles: the exact result, rounded.\<close>

definition float64_add :: "real \<Rightarrow> real \<Rightarrow> real" where
  "float64_add x y = round64 (x + y)"

definition float64_sub :: "real \<Rightarrow> real \<Rightarrow> real" where
  "float64_sub x y = round64 (x - y)"

definition float64_mul :: "real \<Rightarrow> real \<Rightarrow> real" where
  "float64_mul x y = round64 (x * y)"

subsection \<open>The testbed\<close>

record bandit =
  k :: int
  bandit_std :: real
  q_star :: "real list"
  best_action :: nat

record testbed =
  num_runs :: int
  testbed_k :: int
  k_mean :: real
  k_std :: real
  testbed_bandit_std :: real
  bandits :: "bandit list"

definition Bandit_init ::
    "int \<Rightarrow> real \<Rightarrow> real \<Rightarrow> real \<Rightarrow> draw stream \<Rightarrow> error + (bandit \<times> draw stream)" where
  "Bandit_init kk mean std b_std ds =
     then_do (np_random_normal_size mean std kk ds) (\<lambda>(qs, ds').
     then_do (np_argmax qs) (\<lambda>best.
     Inr (\<lparr>k = kk, bandit_std = b_std, q_star = qs, best_action = best\<rparr>, ds')))"

text \<open>
  \<^verbatim>\<open>Bandit.step\<close>. The method assigns to no attribute, so the bandit it hands back is the
  bandit it was given.
\<close>

definition step :: "bandit \<Rightarrow> int \<Rightarrow> draw \<Rightarrow> error + (real \<times> bandit)" where
  "step b action d =
     then_do (np_index (length (q_star b)) action) (\<lambda>i.
     then_do (np_random_normal (q_star b ! i) (bandit_std b) d) (\<lambda>reward.
     Inr (reward, b)))"

text \<open>The list comprehension of \<^verbatim>\<open>KArmedTestbed.__init__\<close>, one bandit per element of the range.\<close>

fun make_bandits ::
    "nat \<Rightarrow> int \<Rightarrow> real \<Rightarrow> real \<Rightarrow> real \<Rightarrow> draw stream \<Rightarrow> error + (bandit list \<times> draw stream)" where
  "make_bandits 0 kk mean std b_std ds = Inr ([], ds)"
| "make_bandits (Suc n) kk mean std b_std ds =
     then_do (Bandit_init kk mean std b_std ds) (\<lambda>(b, ds').
     then_do (make_bandits n kk mean std b_std ds') (\<lambda>(bs, ds'').
     Inr (b # bs, ds'')))"

text \<open>
  \<^verbatim>\<open>KArmedTestbed.__init__\<close>. The argument \<open>gen\<close> is the generator that
  \<^verbatim>\<open>np.random.seed\<close> seeds.
\<close>

definition KArmedTestbed_init ::
    "int \<Rightarrow> int \<Rightarrow> real \<Rightarrow> real \<Rightarrow> real \<Rightarrow> int \<Rightarrow> (int \<Rightarrow> draw stream)
       \<Rightarrow> error + (testbed \<times> draw stream)" where
  "KArmedTestbed_init runs kk mean std b_std seed gen =
     then_do (np_random_seed gen seed) (\<lambda>ds0.
     then_do (make_bandits (nat runs) kk mean std b_std ds0) (\<lambda>(bs, ds).
     Inr (\<lparr>num_runs = runs, testbed_k = kk, k_mean = mean, k_std = std,
           testbed_bandit_std = b_std, bandits = bs\<rparr>, ds)))"

subsection \<open>The agent\<close>

record agent =
  env :: testbed
  epsilon :: real
  max_steps :: int
  num_actions :: int
  use_weighted_average :: bool
  alpha :: real
  initialisation :: real
  q_values :: "real list"
  action_counts :: "int list"

definition reset :: "agent \<Rightarrow> error + agent" where
  "reset ag =
     then_do (if initialisation ag = 0 then np_zeros (num_actions ag)
              else if initialisation ag > 0 then np_full (num_actions ag) (initialisation ag)
              else Inl ValueError) (\<lambda>qs.
     then_do (np_zeros (num_actions ag)) (\<lambda>cs.
     Inr (ag\<lparr>q_values := qs, action_counts := cs\<rparr>)))"

definition EpsilonGreedy_init ::
    "testbed \<Rightarrow> real \<Rightarrow> int \<Rightarrow> real \<Rightarrow> bool \<Rightarrow> real \<Rightarrow> error + agent" where
  "EpsilonGreedy_init e eps steps init weighted al =
     (case bandits e of
        [] \<Rightarrow> Inl IndexError
      | b # _ \<Rightarrow>
          then_do (np_zeros (k b)) (\<lambda>qs.
          then_do (np_zeros (k b)) (\<lambda>cs.
          reset \<lparr>env = e, epsilon = eps, max_steps = steps, num_actions = k b,
                 use_weighted_average = weighted, alpha = al, initialisation = init,
                 q_values = qs, action_counts = cs\<rparr>)))"

text \<open>
  Modelled from the spec: \<^verbatim>\<open>argmax_ties_random\<close> of \<^verbatim>\<open>rl.utils.general\<close>, which is not among
  the sources. The specification has it iterate to find the maximum value, collect all
  indices attaining it, and sample one of them uniformly. An empty array has no maximum.
\<close>

fun max_value :: "real list \<Rightarrow> real" where
  "max_value [] = 0"
| "max_value (x # xs) = fold max xs x"

definition tied_indices :: "real list \<Rightarrow> nat list" where
  "tied_indices xs = filter (\<lambda>i. xs ! i = max_value xs) [0..<length xs]"

definition argmax_ties_random :: "real list \<Rightarrow> draw \<Rightarrow> error + int" where
  "argmax_ties_random xs d =
     (if xs = [] then Inl ValueError
      else Inr (int (tied_indices xs ! (raw_pick d mod length (tied_indices xs)))))"

definition act :: "agent \<Rightarrow> draw \<Rightarrow> error + int" where
  "act ag d =
     (if np_random_random d < epsilon ag then np_random_randint (num_actions ag) d
      else argmax_ties_random (q_values ag) d)"

text \<open>
  \<^verbatim>\<open>simple_update\<close>: the count is incremented first, and the step size is one over the new
  count. In every state the operations of the agent produce, the counts are non-negative, so
  the divisor is at least one. The arithmetic of this rule is exact.
\<close>

definition simple_update :: "agent \<Rightarrow> int \<Rightarrow> real \<Rightarrow> error + agent" where
  "simple_update ag action reward =
     then_do (np_index (length (action_counts ag)) action) (\<lambda>i.
     let cs = (action_counts ag)[i := action_counts ag ! i + 1];
         step_size = 1 / real_of_int (cs ! i)
     in then_do (np_index (length (q_values ag)) action) (\<lambda>j.
        Inr (ag\<lparr>action_counts := cs,
                 q_values := (q_values ag)[j := q_values ag ! j
                                + step_size * (reward - q_values ag ! j)]\<rparr>)))"

text \<open>
  \<^verbatim>\<open>weighted_update\<close>: the subtraction, the multiplication by \<^verbatim>\<open>alpha\<close> and the addition to the
  estimate are three operations on doubles, each rounded.
\<close>

definition weighted_update :: "agent \<Rightarrow> int \<Rightarrow> real \<Rightarrow> error + agent" where
  "weighted_update ag action reward =
     then_do (np_index (length (q_values ag)) action) (\<lambda>j.
     Inr (ag\<lparr>q_values := (q_values ag)[j := float64_add (q_values ag ! j)
                             (float64_mul (alpha ag)
                                (float64_sub reward (q_values ag ! j)))]\<rparr>))"

subsection \<open>Training\<close>

text \<open>
  A Python dictionary, in insertion order: assigning to a key that is present replaces its
  value in place, assigning to a new key appends. The keys of the two dictionaries of
  \<^verbatim>\<open>train\<close> are the bandit objects; an object is identified by its position in
  \<^verbatim>\<open>env.bandits\<close>.
\<close>

fun dict_set :: "('key \<times> 'v) list \<Rightarrow> 'key \<Rightarrow> 'v \<Rightarrow> ('key \<times> 'v) list" where
  "dict_set [] key v = [(key, v)]"
| "dict_set ((key', v') # kvs) key v =
     (if key' = key then (key, v) # kvs else (key', v') # dict_set kvs key v)"

text \<open>
  \<^verbatim>\<open>pd.DataFrame\<close> of a dictionary of columns: \<^verbatim>\<open>ValueError\<close> unless all columns have one
  length. The shape of a frame is its number of rows and its number of columns.
\<close>

record 'a dataframe =
  columns :: "nat list"
  column_data :: "'a list list"

definition pd_DataFrame :: "(nat \<times> 'a list) list \<Rightarrow> error + 'a dataframe" where
  "pd_DataFrame d =
     (if \<forall>c \<in> set d. length (snd c) = length (snd (hd d))
      then Inr \<lparr>columns = map fst d, column_data = map snd d\<rparr>
      else Inl ValueError)"

definition shape :: "'a dataframe \<Rightarrow> nat \<times> nat" where
  "shape df =
     (case column_data df of [] \<Rightarrow> (0, 0) | c # _ \<Rightarrow> (length c, length (columns df)))"

text \<open>The body of the inner loop of \<^verbatim>\<open>train\<close>, at loop index \<open>i\<close>.\<close>

definition train_step ::
    "agent \<times> bandit \<times> real list \<times> bool list \<Rightarrow> nat \<Rightarrow> draw
       \<Rightarrow> error + (agent \<times> bandit \<times> real list \<times> bool list)" where
  "train_step s i d =
     (case s of (ag, b, rewards, optimal_action) \<Rightarrow>
        then_do (act ag d) (\<lambda>action.
        then_do (step b action d) (\<lambda>(reward, b').
        then_do (if use_weighted_average ag then weighted_update ag action reward
                 else simple_update ag action reward) (\<lambda>ag'.
        Inr (ag', b', rewards[i := reward],
             if action = int (best_action b') then optimal_action[i := True]
             else optimal_action)))))"

fun train_steps ::
    "nat list \<Rightarrow> agent \<times> bandit \<times> real list \<times> bool list \<Rightarrow> draw stream
       \<Rightarrow> error + ((agent \<times> bandit \<times> real list \<times> bool list) \<times> draw stream)" where
  "train_steps [] s ds = Inr (s, ds)"
| "train_steps (i # is) s ds =
     then_do (train_step s i (shd ds)) (\<lambda>s'. train_steps is s' (stl ds))"

text \<open>The body of the outer loop of \<^verbatim>\<open>train\<close>, up to the two dictionary assignments.\<close>

definition train_run ::
    "agent \<Rightarrow> bandit \<Rightarrow> draw stream
       \<Rightarrow> error + ((agent \<times> bandit \<times> real list \<times> bool list) \<times> draw stream)" where
  "train_run ag b ds =
     then_do (reset ag) (\<lambda>ag1.
     then_do (np_zeros (max_steps ag1)) (\<lambda>rewards.
     train_steps [0..<nat (max_steps ag1)]
       (ag1, b, rewards, replicate (nat (max_steps ag1)) False) ds))"

fun train_runs ::
    "nat list \<Rightarrow> agent \<Rightarrow> (nat \<times> real list) list \<Rightarrow> (nat \<times> bool list) list \<Rightarrow> draw stream
       \<Rightarrow> error + (agent \<times> (nat \<times> real list) list \<times> (nat \<times> bool list) list \<times> draw stream)" where
  "train_runs [] ag rewards_testbed optimal_action_testbed ds =
     Inr (ag, rewards_testbed, optimal_action_testbed, ds)"
| "train_runs (r # rs) ag rewards_testbed optimal_action_testbed ds =
     then_do (train_run ag (bandits (env ag) ! r) ds) (\<lambda>((ag', b', rewards, optimal_action), ds').
     train_runs rs
       (ag'\<lparr>env := (env ag')\<lparr>bandits := (bandits (env ag'))[r := b']\<rparr>\<rparr>)
       (dict_set rewards_testbed r rewards)
       (dict_set optimal_action_testbed r optimal_action) ds')"

definition train ::
    "agent \<Rightarrow> draw stream
       \<Rightarrow> error + (real dataframe \<times> bool dataframe \<times> agent \<times> draw stream)" where
  "train ag ds =
     then_do (train_runs [0..<length (bandits (env ag))] ag [] [] ds)
       (\<lambda>(ag', rewards_testbed, optimal_action_testbed, ds').
     then_do (pd_DataFrame rewards_testbed) (\<lambda>rewards_testbed_df.
     then_do (pd_DataFrame optimal_action_testbed) (\<lambda>optimal_action_testbed_df.
     Inr (rewards_testbed_df, optimal_action_testbed_df, ag', ds'))))"

subsection \<open>Sequences of calls and reachable states\<close>

text \<open>A caller that applies \<^verbatim>\<open>simple_update\<close> to a list of action and reward pairs, in order.\<close>

fun simple_updates :: "agent \<Rightarrow> (int \<times> real) list \<Rightarrow> error + agent" where
  "simple_updates ag [] = Inr ag"
| "simple_updates ag ((action, reward) # us) =
     then_do (simple_update ag action reward) (\<lambda>ag'. simple_updates ag' us)"

text \<open>The rewards that a list of calls passes for the array cell \<open>i\<close> of \<open>n\<close> cells.\<close>

definition rewards_of :: "nat \<Rightarrow> nat \<Rightarrow> (int \<times> real) list \<Rightarrow> real list" where
  "rewards_of n i us = map snd (filter (\<lambda>u. np_index n (fst u) = Inr i) us)"

text \<open>
  The states of an agent that the program can produce: the constructor on a constructed
  testbed, followed by any sequence of \<^verbatim>\<open>reset\<close>, \<^verbatim>\<open>simple_update\<close>, \<^verbatim>\<open>weighted_update\<close> and
  \<^verbatim>\<open>train\<close> that return. \<^verbatim>\<open>act\<close> assigns to nothing, so it contributes no state.
\<close>

inductive reachable :: "agent \<Rightarrow> bool" where
  by_init: "KArmedTestbed_init runs kk mean std b_std seed gen = Inr (e, ds) \<Longrightarrow>
            EpsilonGreedy_init e eps steps init weighted al = Inr ag \<Longrightarrow> reachable ag"
| by_reset: "reachable ag \<Longrightarrow> reset ag = Inr ag' \<Longrightarrow> reachable ag'"
| by_simple_update: "reachable ag \<Longrightarrow> simple_update ag action reward = Inr ag' \<Longrightarrow> reachable ag'"
| by_weighted_update:
    "reachable ag \<Longrightarrow> weighted_update ag action reward = Inr ag' \<Longrightarrow> reachable ag'"
| by_train: "reachable ag \<Longrightarrow> train ag ds = Inr (rdf, odf, ag', ds') \<Longrightarrow> reachable ag'"

text \<open>
  The states produced without the constant-step-size rule: no call of \<^verbatim>\<open>weighted_update\<close>,
  and \<^verbatim>\<open>train\<close> only with \<^verbatim>\<open>use_weighted_average\<close> false.
\<close>

inductive sample_average_reachable :: "agent \<Rightarrow> bool" where
  sa_init: "KArmedTestbed_init runs kk mean std b_std seed gen = Inr (e, ds) \<Longrightarrow>
            EpsilonGreedy_init e eps steps init weighted al = Inr ag \<Longrightarrow>
            sample_average_reachable ag"
| sa_reset: "sample_average_reachable ag \<Longrightarrow> reset ag = Inr ag' \<Longrightarrow>
             sample_average_reachable ag'"
| sa_simple_update: "sample_average_reachable ag \<Longrightarrow>
             simple_update ag action reward = Inr ag' \<Longrightarrow> sample_average_reachable ag'"
| sa_train: "sample_average_reachable ag \<Longrightarrow> \<not> use_weighted_average ag \<Longrightarrow>
             train ag ds = Inr (rdf, odf, ag', ds') \<Longrightarrow> sample_average_reachable ag'"

text \<open>
  The arg-max of the specification: an index of a maximal entry, with every earlier entry
  strictly smaller.
\<close>

definition is_first_argmax :: "real list \<Rightarrow> nat \<Rightarrow> bool" where
  "is_first_argmax xs i \<longleftrightarrow>
     i < length xs \<and> (\<forall>j < length xs. xs ! j \<le> xs ! i) \<and> (\<forall>j < i. xs ! j < xs ! i)"

subsection \<open>Invariants of the agent\<close>

text \<open>Two agent states that differ at most in the two arrays a run works on.\<close>

definition same_config :: "agent \<Rightarrow> agent \<Rightarrow> bool" where
  "same_config ag ag' \<longleftrightarrow>
     ag' = ag\<lparr>q_values := q_values ag', action_counts := action_counts ag'\<rparr>"

text \<open>
  What the constructors establish: at least one action, both arrays of that length, a
  non-negative initial value, and a non-empty testbed whose bandits all have that number of
  actions and the noise deviation of the testbed.
\<close>

definition wf_agent :: "agent \<Rightarrow> bool" where
  "wf_agent ag \<longleftrightarrow>
     1 \<le> num_actions ag \<and>
     length (q_values ag) = nat (num_actions ag) \<and>
     length (action_counts ag) = nat (num_actions ag) \<and>
     0 \<le> initialisation ag \<and>
     bandits (env ag) \<noteq> [] \<and>
     num_runs (env ag) = int (length (bandits (env ag))) \<and>
     (\<forall>b \<in> set (bandits (env ag)).
        k b = num_actions ag \<and> length (q_star b) = nat (num_actions ag) \<and>
        bandit_std b = testbed_bandit_std (env ag))"

text \<open>Counts are non-negative, and an action never counted still has the initial value.\<close>

definition count_inv :: "agent \<Rightarrow> bool" where
  "count_inv ag \<longleftrightarrow>
     (\<forall>a < length (action_counts ag).
        0 \<le> action_counts ag ! a \<and>
        (action_counts ag ! a = 0 \<longrightarrow> q_values ag ! a = initialisation ag))"

subsection \<open>A concrete testbed and concrete agents\<close>

text \<open>
  A generator whose stream starts with the standard normal samples 1 and 3 and continues
  with 0, a testbed of one run with two actions built from it, and agents on that testbed.
\<close>

definition example_draw :: "real \<Rightarrow> draw" where
  "example_draw z = \<lparr>raw_uniform = 0, raw_pick = 0, gauss = z\<rparr>"

definition example_gen :: "int \<Rightarrow> draw stream" where
  "example_gen seed = example_draw 1 ## example_draw 3 ## sconst (example_draw 0)"

definition example_bandit :: bandit where
  "example_bandit = \<lparr>k = 2, bandit_std = 1, q_star = [1, 3], best_action = 1\<rparr>"

definition example_testbed :: testbed where
  "example_testbed = \<lparr>num_runs = 1, testbed_k = 2, k_mean = 0, k_std = 1,
                       testbed_bandit_std = 1, bandits = [example_bandit]\<rparr>"

definition example_agent :: "real \<Rightarrow> int \<Rightarrow> real \<Rightarrow> bool \<Rightarrow> real \<Rightarrow> agent" where
  "example_agent eps steps init weighted al =
     \<lparr>env = example_testbed, epsilon = eps, max_steps = steps, num_actions = 2,
      use_weighted_average = weighted, alpha = al, initialisation = init,
      q_values = [init, init], action_counts = [0, 0]\<rparr>"

section \<open>Double-precision rounding\<close>

lemma pow2_less_imp_less:
  assumes "(2::real) powi a < 2 powi b"
  shows "a < b"
proof (rule ccontr)
  assume "\<not> a < b"
  then have "b \<le> a" by simp
  then have "(2::real) powi b \<le> 2 powi a" by (rule power_int_increasing) simp
  with assms show False by simp
qed

lemma exponent_from_ge: "e \<le> exponent_from n e x"
proof (induction n arbitrary: e)
  case 0
  then show ?case by simp
next
  case (Suc n)
  from Suc [of "e + 1"] show ?case by simp
qed

lemma exponent_from_lower:
  "e < exponent_from n e x \<Longrightarrow> 2 powi (exponent_from n e x) \<le> x"
proof (induction n arbitrary: e)
  case 0
  then show ?case by simp
next
  case (Suc n)
  show ?case
  proof (cases "2 powi (e + 1) \<le> x")
    case True
    then have r: "exponent_from (Suc n) e x = exponent_from n (e + 1) x" by simp
    show ?thesis
    proof (cases "e + 1 < exponent_from n (e + 1) x")
      case True
      then show ?thesis unfolding r by (rule Suc.IH)
    next
      case False
      with exponent_from_ge [of "e + 1" n x] have "exponent_from n (e + 1) x = e + 1" by simp
      with \<open>2 powi (e + 1) \<le> x\<close> show ?thesis unfolding r by simp
    qed
  next
    case False
    with Suc.prems show ?thesis by simp
  qed
qed

lemma exponent_from_eq:
  assumes "e0 \<le> e" "e \<le> e0 + int n" "e = e0 \<or> 2 powi e \<le> x" "x < 2 powi (e + 1)"
  shows "exponent_from n e0 x = e"
  using assms
proof (induction n arbitrary: e0)
  case 0
  then show ?case by simp
next
  case (Suc n)
  show ?case
  proof (cases "e = e0")
    case True
    with Suc.prems(4) show ?thesis by simp
  next
    case False
    with Suc.prems(1,3) have lt: "e0 + 1 \<le> e" and le: "2 powi e \<le> x" by simp_all
    have "(2::real) powi (e0 + 1) \<le> 2 powi e" using lt by (rule power_int_increasing) simp
    with le have go: "2 powi (e0 + 1) \<le> x" by simp
    have "exponent_from n (e0 + 1) x = e"
      using lt Suc.prems(2) le Suc.prems(4) by (intro Suc.IH) simp_all
    with go show ?thesis by simp
  qed
qed

lemma float64_exponent_eq:
  assumes "- 1022 \<le> e" "e \<le> 1023" "2 powi e \<le> \<bar>x\<bar>" "\<bar>x\<bar> < 2 powi (e + 1)"
  shows "float64_exponent x = e"
  unfolding float64_exponent_def using assms by (intro exponent_from_eq) simp_all

lemma float64_exponent_ge: "- 1022 \<le> float64_exponent x"
  unfolding float64_exponent_def by (rule exponent_from_ge)

lemma float64_exponent_lower:
  "- 1022 < float64_exponent x \<Longrightarrow> 2 powi (float64_exponent x) \<le> \<bar>x\<bar>"
  unfolding float64_exponent_def by (rule exponent_from_lower)

lemma round_half_even_of_int: "round_half_even (of_int n) = n"
  by (simp add: round_half_even_def)

lemma round64_exact:
  assumes m: "\<bar>m\<bar> < 2 ^ 53" and e: "- 1074 \<le> e"
  shows "round64 (of_int m * 2 powi e) = of_int m * 2 powi e"
proof -
  define x :: real where "x = of_int m * 2 powi e"
  define u where "u = float64_exponent x - 52"
  have u: "u \<le> e"
  proof (cases "- 1022 < float64_exponent x")
    case True
    then have "2 powi (float64_exponent x) \<le> \<bar>x\<bar>" by (rule float64_exponent_lower)
    also have "\<bar>x\<bar> = of_int \<bar>m\<bar> * 2 powi e" by (simp add: x_def abs_mult)
    also have "\<dots> < 2 ^ 53 * 2 powi e"
    proof -
      have "(of_int \<bar>m\<bar> :: real) < of_int (2 ^ 53)" using m by (simp only: of_int_less_iff)
      then have "(of_int \<bar>m\<bar> :: real) < 2 ^ 53" by simp
      moreover have "(0::real) < 2 powi e" by simp
      ultimately show ?thesis by (rule mult_strict_right_mono)
    qed
    also have "\<dots> = (2::real) powi (53 + e)" by (simp add: power_int_add)
    finally have "float64_exponent x < 53 + e" by (rule pow2_less_imp_less)
    then show ?thesis by (simp add: u_def)
  next
    case False
    with float64_exponent_ge [of x] have "float64_exponent x = - 1022" by simp
    with e show ?thesis by (simp add: u_def)
  qed
  then obtain d where d: "e = u + int d" by (metis zle_iff_zadd)
  have split: "(2::real) powi e = 2 ^ d * 2 powi u"
    unfolding d by (simp add: power_int_add mult.commute)
  have pos: "(2::real) powi u \<noteq> 0" by simp
  have x: "x = of_int (m * 2 ^ d) * 2 powi u"
    by (simp add: x_def split)
  then have "x / 2 powi u = of_int (m * 2 ^ d)"
    using pos by simp
  then have "round_half_even (x / 2 powi u) = m * 2 ^ d"
    by (simp only: round_half_even_of_int)
  then have "round64 x = of_int (m * 2 ^ d) * 2 powi u"
    by (simp only: round64_def u_def)
  then have "round64 x = x" by (simp only: x [symmetric])
  then show ?thesis by (simp only: x_def)
qed

lemma round64_small_int: "\<bar>m\<bar> < 2 ^ 53 \<Longrightarrow> round64 (of_int m) = of_int m"
  using round64_exact [of m 0] by simp

lemma round64_values:
  "round64 0 = 0" "round64 1 = 1" "round64 2 = 2" "round64 3 = 3" "round64 4 = 4"
  "round64 5 = 5" "round64 7 = 7" "round64 (- 1) = - 1" "round64 (- (1 / 2)) = - (1 / 2)"
  "round64 (9 / 2) = 9 / 2"
  using round64_small_int [of 0] round64_small_int [of 1] round64_small_int [of 2]
    round64_small_int [of 3] round64_small_int [of 4] round64_small_int [of 5]
    round64_small_int [of 7]
    round64_small_int [of "- 1"] round64_exact [of "- 1" "- 1"] round64_exact [of 9 "- 1"]
  by simp_all

text \<open>The double nearest to one tenth, and what the subtraction from it of 5 rounds to.\<close>

lemma round64_tenth_minus_five:
  "round64 (3602879701896397 / 36028797018963968 - 5) = - 5516909543528858 / 2 ^ 50"
proof -
  let ?x = "3602879701896397 / 36028797018963968 - 5 :: real"
  have e: "float64_exponent ?x = 2"
    by (rule float64_exponent_eq) simp_all
  show ?thesis
    unfolding round64_def e by (simp add: round_half_even_def Let_def)
qed

lemma round64_tenth_result:
  "round64 (5 + (- 5516909543528858 / 2 ^ 50)) = 112589990684262 / 2 ^ 50"
  using round64_exact [of 112589990684262 "- 50"] by simp

lemma round64_tenth_diff:
  "round64 (- 5516909543528858 / 2 ^ 50) = - 5516909543528858 / 2 ^ 50"
  using round64_exact [of "- 5516909543528858" "- 50"] by simp

section \<open>Basic facts\<close>

lemma then_do_Inl [simp]: "then_do (Inl e) f = Inl e"
  by (simp add: then_do_def)

lemma then_do_Inr [simp]: "then_do (Inr x) f = f x"
  by (simp add: then_do_def)

lemma then_do_eq_Inr: "then_do m f = Inr y \<longleftrightarrow> (\<exists>x. m = Inr x \<and> f x = Inr y)"
  by (cases m) simp_all

lemma np_index_less: "np_index n i = Inr j \<Longrightarrow> j < n"
  by (auto simp: np_index_def split: if_splits)

lemma np_index_nonneg: "0 \<le> i \<Longrightarrow> i < int n \<Longrightarrow> np_index n i = Inr (nat i)"
  by (simp add: np_index_def)

lemma weighted_update_Inr:
  "weighted_update ag a r = Inr ag' \<longleftrightarrow>
     (\<exists>j. np_index (length (q_values ag)) a = Inr j \<and>
          ag' = ag\<lparr>q_values := (q_values ag)[j := float64_add (q_values ag ! j)
                   (float64_mul (alpha ag) (float64_sub r (q_values ag ! j)))]\<rparr>)"
  by (auto simp: weighted_update_def then_do_eq_Inr)

lemma simple_update_Inr:
  "simple_update ag a r = Inr ag' \<longleftrightarrow>
     (\<exists>i j. np_index (length (action_counts ag)) a = Inr i \<and>
            np_index (length (q_values ag)) a = Inr j \<and>
            ag' = ag\<lparr>action_counts := (action_counts ag)[i := action_counts ag ! i + 1],
                     q_values := (q_values ag)[j := q_values ag ! j
                        + (1 / real_of_int (action_counts ag ! i + 1)) * (r - q_values ag ! j)]\<rparr>)"
proof -
  have nth: "(action_counts ag)[i := action_counts ag ! i + 1] ! i = action_counts ag ! i + 1"
    if "np_index (length (action_counts ag)) a = Inr i" for i
    using np_index_less [OF that] by simp
  show ?thesis
    unfolding simple_update_def then_do_eq_Inr Let_def
    by (auto simp: nth)
qed

text \<open>One sample-average update of a cell, on arrays of one length.\<close>

lemma simple_update_cell:
  assumes len: "length (q_values ag) = n" "length (action_counts ag) = n"
    and idx: "np_index n a = Inr j"
  shows "simple_update ag a r = Inr (ag\<lparr>action_counts := (action_counts ag)[j := action_counts ag ! j + 1],
            q_values := (q_values ag)[j := q_values ag ! j
              + (1 / real_of_int (action_counts ag ! j + 1)) * (r - q_values ag ! j)]\<rparr>)"
  using len idx by (simp add: simple_update_Inr)

lemma mean_step:
  fixes c :: int and q r :: real
  assumes "0 \<le> c"
  shows "real_of_int (c + 1) * (q + (1 / real_of_int (c + 1)) * (r - q)) = real_of_int c * q + r"
proof -
  define d where "d = real_of_int (c + 1)"
  have nz: "d \<noteq> 0" using assms by (simp add: d_def)
  have d: "d = real_of_int c + 1" by (simp add: d_def)
  have "d * (q + (1 / d) * (r - q)) = d * q + (d * (1 / d)) * (r - q)"
    by (simp only: distrib_left mult.assoc)
  also have "\<dots> = d * q + (r - q)" using nz by simp
  also have "\<dots> = real_of_int c * q + r" by (simp add: d distrib_right)
  finally show ?thesis by (simp only: d_def)
qed

lemma simple_updates_mean_aux:
  assumes "length (q_values ag) = n" "length (action_counts ag) = n" "i < n"
    and "\<forall>u \<in> set us. \<exists>j. np_index n (fst u) = Inr j"
    and "0 \<le> action_counts ag ! i"
  shows "\<exists>ag'. simple_updates ag us = Inr ag' \<and>
           action_counts ag' ! i = action_counts ag ! i + int (length (rewards_of n i us)) \<and>
           real_of_int (action_counts ag' ! i) * q_values ag' ! i
             = real_of_int (action_counts ag ! i) * q_values ag ! i + sum_list (rewards_of n i us)"
  using assms
proof (induction us arbitrary: ag)
  case Nil
  then show ?case by (simp add: rewards_of_def)
next
  case (Cons u us)
  obtain a r where u: "u = (a, r)" by (cases u)
  from Cons.prems(4) u obtain j where j: "np_index n a = Inr j" by auto
  define ag1 where "ag1 = ag\<lparr>action_counts := (action_counts ag)[j := action_counts ag ! j + 1],
            q_values := (q_values ag)[j := q_values ag ! j
              + (1 / real_of_int (action_counts ag ! j + 1)) * (r - q_values ag ! j)]\<rparr>"
  have step1: "simple_update ag a r = Inr ag1"
    unfolding ag1_def using Cons.prems(1,2) j by (rule simple_update_cell)
  have jn: "j < n" using j by (rule np_index_less)
  have len1: "length (q_values ag1) = n" "length (action_counts ag1) = n"
    using Cons.prems(1,2) by (simp_all add: ag1_def)
  have c1: "action_counts ag1 ! i = action_counts ag ! i + (if j = i then 1 else 0)"
    using Cons.prems(2,3) by (simp add: ag1_def)
  have m1: "real_of_int (action_counts ag1 ! i) * q_values ag1 ! i
              = real_of_int (action_counts ag ! i) * q_values ag ! i + (if j = i then r else 0)"
  proof (cases "j = i")
    case True
    have "action_counts ag1 ! i = action_counts ag ! i + 1"
      using True Cons.prems(2,3) by (simp add: ag1_def)
    moreover have "q_values ag1 ! i = q_values ag ! i
              + (1 / real_of_int (action_counts ag ! i + 1)) * (r - q_values ag ! i)"
      using True Cons.prems(1,3) by (simp add: ag1_def)
    ultimately show ?thesis
      using True mean_step [OF Cons.prems(5), of "q_values ag ! i" r] by (simp only: if_True refl)
  next
    case False
    then show ?thesis by (simp add: ag1_def)
  qed
  have nonneg1: "0 \<le> action_counts ag1 ! i" using c1 Cons.prems(5) by simp
  have rest: "\<forall>u \<in> set us. \<exists>j. np_index n (fst u) = Inr j" using Cons.prems(4) by simp
  from Cons.IH [OF len1 Cons.prems(3) rest nonneg1]
  obtain ag' where ag': "simple_updates ag1 us = Inr ag'"
    "action_counts ag' ! i = action_counts ag1 ! i + int (length (rewards_of n i us))"
    "real_of_int (action_counts ag' ! i) * q_values ag' ! i
       = real_of_int (action_counts ag1 ! i) * q_values ag1 ! i + sum_list (rewards_of n i us)"
    by blast
  have rw: "rewards_of n i (u # us) = (if j = i then r # rewards_of n i us else rewards_of n i us)"
    using j by (simp add: rewards_of_def u)
  have "simple_updates ag (u # us) = Inr ag'" using step1 ag'(1) by (simp add: u)
  moreover have "action_counts ag' ! i = action_counts ag ! i + int (length (rewards_of n i (u # us)))"
    using ag'(2) c1 by (simp add: rw)
  moreover have "real_of_int (action_counts ag' ! i) * q_values ag' ! i
       = real_of_int (action_counts ag ! i) * q_values ag ! i + sum_list (rewards_of n i (u # us))"
  proof -
    have "real_of_int (action_counts ag' ! i) * q_values ag' ! i
       = real_of_int (action_counts ag ! i) * q_values ag ! i + (if j = i then r else 0)
           + sum_list (rewards_of n i us)"
      using ag'(3) by (simp only: m1)
    then show ?thesis by (simp add: rw)
  qed
  ultimately show ?case by blast
qed

lemma reset_Inr:
  "reset ag = Inr ag' \<longleftrightarrow>
     0 \<le> initialisation ag \<and> 0 \<le> num_actions ag \<and>
     ag' = ag\<lparr>q_values := replicate (nat (num_actions ag)) (initialisation ag),
              action_counts := replicate (nat (num_actions ag)) 0\<rparr>"
  by (auto simp: reset_def np_zeros_def np_full_def then_do_def)

text \<open>
  Claim C1. From a freshly reset state, after any sequence of \<^verbatim>\<open>simple_update\<close> calls with
  valid action indices, the estimate of an action that was updated at least once is the
  arithmetic mean of the rewards passed for it, and its count is their number. Updates of
  other actions may come in between. The concrete scenario of the claim (two actions,
  initial value 0, rewards 1 and 3 for action 0) is the instance below.
\<close>

theorem simple_update_sample_mean:
  assumes "reset ag0 = Inr ag"
    and "np_index (nat (num_actions ag0)) a = Inr i"
    and "\<forall>u \<in> set us. \<exists>j. np_index (nat (num_actions ag0)) (fst u) = Inr j"
    and "rewards_of (nat (num_actions ag0)) i us \<noteq> []"
  shows "\<exists>ag'. simple_updates ag us = Inr ag' \<and>
           q_values ag' ! i = sum_list (rewards_of (nat (num_actions ag0)) i us)
                                / real (length (rewards_of (nat (num_actions ag0)) i us)) \<and>
           action_counts ag' ! i = int (length (rewards_of (nat (num_actions ag0)) i us))"
proof -
  let ?n = "nat (num_actions ag0)"
  let ?rs = "rewards_of ?n i us"
  have ag: "ag = ag0\<lparr>q_values := replicate ?n (initialisation ag0),
                     action_counts := replicate ?n 0\<rparr>"
    using assms(1) by (simp add: reset_Inr)
  have i: "i < ?n" using assms(2) by (rule np_index_less)
  have len: "length (q_values ag) = ?n" "length (action_counts ag) = ?n" by (simp_all add: ag)
  have c0: "action_counts ag ! i = 0" using i by (simp add: ag)
  then have nonneg: "0 \<le> action_counts ag ! i" by simp
  from simple_updates_mean_aux [OF len i assms(3) nonneg]
  obtain ag' where ag': "simple_updates ag us = Inr ag'"
    "action_counts ag' ! i = action_counts ag ! i + int (length ?rs)"
    "real_of_int (action_counts ag' ! i) * q_values ag' ! i
       = real_of_int (action_counts ag ! i) * q_values ag ! i + sum_list ?rs"
    by blast
  have cnt: "action_counts ag' ! i = int (length ?rs)" using ag'(2) c0 by simp
  have pos: "0 < length ?rs" using assms(4) by simp
  have "real (length ?rs) * q_values ag' ! i = sum_list ?rs" using ag'(3) cnt c0 by simp
  then have "q_values ag' ! i = sum_list ?rs / real (length ?rs)"
    using pos by (simp add: field_simps)
  with ag'(1) cnt show ?thesis by blast
qed

section \<open>The update rules\<close>

lemma example_bandit_init:
  "Bandit_init 2 0 1 1 (example_gen s) = Inr (example_bandit, sconst (example_draw 0))"
  by (simp add: Bandit_init_def np_random_normal_size_def example_gen_def example_draw_def
      np_argmax_def example_bandit_def numeral_2_eq_2)

lemma example_testbed_init:
  "KArmedTestbed_init 1 2 0 1 1 0 example_gen = Inr (example_testbed, sconst (example_draw 0))"
  by (simp add: KArmedTestbed_init_def np_random_seed_def example_bandit_init
      example_testbed_def)

lemma example_agent_init:
  "0 \<le> init \<Longrightarrow> EpsilonGreedy_init example_testbed eps steps init weighted al
     = Inr (example_agent eps steps init weighted al)"
  by (simp add: EpsilonGreedy_init_def example_testbed_def example_bandit_def reset_def
      np_zeros_def np_full_def example_agent_def numeral_2_eq_2)

lemma example_agent_reset:
  "0 \<le> init \<Longrightarrow> reset (example_agent eps steps init weighted al)
     = Inr (example_agent eps steps init weighted al)"
  by (simp add: reset_def np_zeros_def np_full_def example_agent_def numeral_2_eq_2)

theorem simple_update_sample_mean_witness:
  "reset (example_agent 0 10 0 False (1/10)) = Inr (example_agent 0 10 0 False (1/10)) \<and>
   (\<exists>ag'. simple_updates (example_agent 0 10 0 False (1/10)) [(0, 1), (0, 3)] = Inr ag' \<and>
      q_values ag' ! 0 = 2 \<and> action_counts ag' ! 0 = 2)"
proof -
  let ?ag = "example_agent 0 10 0 False (1/10)"
  let ?us = "[(0, 1), (0, 3)] :: (int \<times> real) list"
  have r: "reset ?ag = Inr ?ag" by (simp add: example_agent_reset)
  have n: "nat (num_actions ?ag) = 2" by (simp add: example_agent_def)
  have i: "np_index (nat (num_actions ?ag)) 0 = Inr 0" by (simp add: n np_index_def)
  have rs: "rewards_of (nat (num_actions ?ag)) 0 ?us = [1, 3]"
    by (simp add: n rewards_of_def np_index_def)
  have all: "\<forall>u \<in> set ?us. \<exists>j. np_index (nat (num_actions ?ag)) (fst u) = Inr j"
    by (simp add: n np_index_def)
  have ne: "rewards_of (nat (num_actions ?ag)) 0 ?us \<noteq> []" by (simp add: rs)
  show ?thesis
    using simple_update_sample_mean [OF r i all ne] r by (simp add: rs)
qed

text \<open>
  Claim C10. \<^verbatim>\<open>weighted_update\<close> leaves \<^verbatim>\<open>action_counts\<close> as it is and changes no entry of
  \<^verbatim>\<open>q_values\<close> but the one the action indexes; \<^verbatim>\<open>simple_update\<close> changes only the indexed
  entry of each of the two arrays. Neither changes another attribute of the agent.
\<close>

theorem update_frame:
  "(weighted_update ag a r = Inr ag' \<longrightarrow>
      action_counts ag' = action_counts ag \<and>
      length (q_values ag') = length (q_values ag) \<and>
      (\<exists>j. np_index (length (q_values ag)) a = Inr j \<and>
           (\<forall>n. n \<noteq> j \<longrightarrow> q_values ag' ! n = q_values ag ! n)) \<and>
      ag' = ag\<lparr>q_values := q_values ag'\<rparr>) \<and>
   (simple_update ag a r = Inr ag' \<longrightarrow>
      length (action_counts ag') = length (action_counts ag) \<and>
      length (q_values ag') = length (q_values ag) \<and>
      (\<exists>i. np_index (length (action_counts ag)) a = Inr i \<and>
           (\<forall>n. n \<noteq> i \<longrightarrow> action_counts ag' ! n = action_counts ag ! n)) \<and>
      (\<exists>j. np_index (length (q_values ag)) a = Inr j \<and>
           (\<forall>n. n \<noteq> j \<longrightarrow> q_values ag' ! n = q_values ag ! n)) \<and>
      ag' = ag\<lparr>action_counts := action_counts ag', q_values := q_values ag'\<rparr>)"
  by (auto simp: weighted_update_Inr simple_update_Inr)

lemma example_weighted_update:
  "weighted_update (example_agent eps steps init weighted al) 0 r
     = Inr ((example_agent eps steps init weighted al)
              \<lparr>q_values := [float64_add init (float64_mul al (float64_sub r init)), init]\<rparr>)"
  by (simp add: weighted_update_def np_index_def example_agent_def)

lemma float64_update_values:
  "float64_add 5 (float64_mul (1 / 2) (float64_sub 4 5)) = 9 / 2"
  "float64_add 0 (float64_mul (1 / 2) (float64_sub 4 0)) = 2"
  "float64_add 2 (float64_mul (1 / 2) (float64_sub 4 2)) = 3"
  by (simp_all add: float64_add_def float64_mul_def float64_sub_def round64_values)

lemma example_simple_update:
  "simple_update (example_agent eps steps init weighted al) 0 r
     = Inr ((example_agent eps steps init weighted al)\<lparr>action_counts := [1, 0], q_values := [r, init]\<rparr>)"
  by (simp add: simple_update_def np_index_def example_agent_def Let_def)

theorem update_frame_witness:
  "weighted_update (example_agent 0 10 5 True (1/2)) 0 4
     = Inr ((example_agent 0 10 5 True (1/2))\<lparr>q_values := [9/2, 5]\<rparr>) \<and>
   action_counts ((example_agent 0 10 5 True (1/2))\<lparr>q_values := [9/2, 5]\<rparr>)
     = action_counts (example_agent 0 10 5 True (1/2)) \<and>
   simple_update (example_agent 0 10 5 False (1/2)) 0 4
     = Inr ((example_agent 0 10 5 False (1/2))\<lparr>action_counts := [1, 0], q_values := [4, 5]\<rparr>) \<and>
   length (q_values ((example_agent 0 10 5 False (1/2))
                       \<lparr>action_counts := [1, 0], q_values := [4, 5]\<rparr>))
     = length (q_values (example_agent 0 10 5 False (1/2)))"
proof -
  let ?A = "example_agent 0 10 5 True (1/2)"
  let ?A' = "?A\<lparr>q_values := [9/2, 5]\<rparr>"
  let ?B = "example_agent 0 10 5 False (1/2)"
  let ?B' = "?B\<lparr>action_counts := [1, 0], q_values := [4, 5]\<rparr>"
  have w: "weighted_update ?A 0 4 = Inr ?A'"
    by (simp add: example_weighted_update float64_update_values)
  have s: "simple_update ?B 0 4 = Inr ?B'"
    by (simp add: example_simple_update)
  show ?thesis
    using update_frame [of ?A 0 4 ?A'] update_frame [of ?B 0 4 ?B'] w s by blast
qed

lemma is_float64_values: "is_float64 2" "is_float64 7"
  by (simp_all add: is_float64_def round64_values)

lemma is_float64_tenth: "is_float64 (3602879701896397 / 36028797018963968)"
  using round64_exact [of 3602879701896397 "- 55"] by (simp add: is_float64_def)

lemma float64_update_tenth:
  "float64_add 5 (float64_mul 1 (float64_sub (3602879701896397 / 36028797018963968) 5))
     = 112589990684262 / 2 ^ 50"
proof -
  have "float64_sub (3602879701896397 / 36028797018963968) 5 = - 5516909543528858 / 2 ^ 50"
    unfolding float64_sub_def by (rule round64_tenth_minus_five)
  moreover have "float64_mul 1 (- 5516909543528858 / 2 ^ 50) = - 5516909543528858 / 2 ^ 50"
    unfolding float64_mul_def mult_1 by (rule round64_tenth_diff)
  moreover have "float64_add 5 (- 5516909543528858 / 2 ^ 50) = 112589990684262 / 2 ^ 50"
    unfolding float64_add_def by (rule round64_tenth_result)
  ultimately show ?thesis by (simp only:)
qed

text \<open>
  Claim C8, as amended. With \<^verbatim>\<open>alpha = 1\<close>, \<^verbatim>\<open>weighted_update\<close> sets the estimate of the action
  to the reward exactly whenever the reward is a finite double and the difference between
  the reward and the estimate is one too, so that the subtraction rounds nothing away; an
  estimate of 0 is such a case. With \<^verbatim>\<open>alpha = 0.5\<close> and an estimate of 0, an update with
  reward 4 gives 2 and a second one gives 3.
\<close>

theorem weighted_update_alpha:
  "(alpha ag = 1 \<longrightarrow> np_index (length (q_values ag)) a = Inr j \<longrightarrow>
    is_float64 r \<longrightarrow> is_float64 (r - q_values ag ! j) \<longrightarrow>
      (\<exists>ag'. weighted_update ag a r = Inr ag' \<and> q_values ag' ! j = r)) \<and>
   (alpha ag = 1 / 2 \<longrightarrow> np_index (length (q_values ag)) a = Inr j \<longrightarrow> q_values ag ! j = 0 \<longrightarrow>
      (\<exists>ag1 ag2. weighted_update ag a 4 = Inr ag1 \<and> q_values ag1 ! j = 2 \<and>
                 weighted_update ag1 a 4 = Inr ag2 \<and> q_values ag2 ! j = 3))"
proof (intro conjI impI)
  assume al: "alpha ag = 1" and j: "np_index (length (q_values ag)) a = Inr j"
    and fr: "is_float64 r" and fd: "is_float64 (r - q_values ag ! j)"
  have jl: "j < length (q_values ag)" using j by (rule np_index_less)
  have s: "float64_sub r (q_values ag ! j) = r - q_values ag ! j"
    using fd by (simp add: float64_sub_def is_float64_def)
  have m: "float64_mul 1 (r - q_values ag ! j) = r - q_values ag ! j"
    using fd by (simp add: float64_mul_def is_float64_def)
  have p: "float64_add (q_values ag ! j) (r - q_values ag ! j) = r"
    using fr by (simp add: float64_add_def is_float64_def)
  have "weighted_update ag a r = Inr (ag\<lparr>q_values := (q_values ag)[j := r]\<rparr>)"
    unfolding weighted_update_def using j by (simp add: al s m p)
  then show "\<exists>ag'. weighted_update ag a r = Inr ag' \<and> q_values ag' ! j = r"
    using jl by simp
next
  assume al: "alpha ag = 1 / 2" and j: "np_index (length (q_values ag)) a = Inr j"
    and q: "q_values ag ! j = 0"
  have jl: "j < length (q_values ag)" using j by (rule np_index_less)
  define ag1 where "ag1 = ag\<lparr>q_values := (q_values ag)[j := 2]\<rparr>"
  define ag2 where "ag2 = ag1\<lparr>q_values := (q_values ag1)[j := 3]\<rparr>"
  have v1: "float64_add (q_values ag ! j)
              (float64_mul (alpha ag) (float64_sub 4 (q_values ag ! j))) = 2"
    unfolding al q by (rule float64_update_values)
  have 1: "weighted_update ag a 4 = Inr ag1"
    unfolding weighted_update_def using j by (simp add: v1 ag1_def)
  have j1: "np_index (length (q_values ag1)) a = Inr j" using j by (simp add: ag1_def)
  have q1: "q_values ag1 ! j = 2" using jl by (simp add: ag1_def)
  have a1: "alpha ag1 = 1 / 2" by (simp add: ag1_def al)
  have v2: "float64_add (q_values ag1 ! j)
              (float64_mul (alpha ag1) (float64_sub 4 (q_values ag1 ! j))) = 3"
    unfolding a1 q1 by (rule float64_update_values)
  have 2: "weighted_update ag1 a 4 = Inr ag2"
    unfolding weighted_update_def using j1 by (simp add: v2 ag2_def)
  have q2: "q_values ag2 ! j = 3" using jl by (simp add: ag2_def ag1_def)
  show "\<exists>ag1 ag2. weighted_update ag a 4 = Inr ag1 \<and> q_values ag1 ! j = 2 \<and>
                 weighted_update ag1 a 4 = Inr ag2 \<and> q_values ag2 ! j = 3"
    using 1 q1 2 q2 by blast
qed

theorem weighted_update_alpha_witness:
  "is_float64 7 \<and> is_float64 (7 - q_values (example_agent 0 10 5 True 1) ! 0) \<and>
   (\<exists>ag'. weighted_update (example_agent 0 10 5 True 1) 0 7 = Inr ag' \<and> q_values ag' ! 0 = 7) \<and>
   (\<exists>ag1 ag2. weighted_update (example_agent 0 10 0 True (1/2)) 0 4 = Inr ag1 \<and>
       q_values ag1 ! 0 = 2 \<and> weighted_update ag1 0 4 = Inr ag2 \<and> q_values ag2 ! 0 = 3)"
proof -
  have a: "alpha (example_agent 0 10 5 True 1) = 1"
    "alpha (example_agent 0 10 0 True (1/2)) = 1 / 2"
    by (simp_all add: example_agent_def)
  have i: "np_index (length (q_values (example_agent 0 10 5 True 1))) 0 = Inr 0"
    "np_index (length (q_values (example_agent 0 10 0 True (1/2)))) 0 = Inr 0"
    by (simp_all add: example_agent_def np_index_def)
  have q: "q_values (example_agent 0 10 0 True (1/2)) ! 0 = 0"
    by (simp add: example_agent_def)
  have f: "is_float64 7" "is_float64 (7 - q_values (example_agent 0 10 5 True 1) ! 0)"
    by (simp_all add: example_agent_def is_float64_values)
  show ?thesis
    using weighted_update_alpha [of "example_agent 0 10 5 True 1" 0 0 7]
      weighted_update_alpha [of "example_agent 0 10 0 True (1/2)" 0 0]
      a i q f by blast
qed

theorem weighted_update_rounding_counterexample:
  "alpha (example_agent 0 10 5 True 1) = 1 \<and>
   is_float64 (3602879701896397 / 36028797018963968) \<and>
   weighted_update (example_agent 0 10 5 True 1) 0 (3602879701896397 / 36028797018963968)
     = Inr ((example_agent 0 10 5 True 1)\<lparr>q_values := [112589990684262 / 2 ^ 50, 5]\<rparr>) \<and>
   (112589990684262 / 2 ^ 50 :: real) \<noteq> 3602879701896397 / 36028797018963968"
proof -
  have a: "alpha (example_agent 0 10 5 True 1) = 1" by (simp add: example_agent_def)
  have w: "weighted_update (example_agent 0 10 5 True 1) 0
             (3602879701896397 / 36028797018963968)
     = Inr ((example_agent 0 10 5 True 1)\<lparr>q_values := [112589990684262 / 2 ^ 50, 5]\<rparr>)"
    unfolding example_weighted_update float64_update_tenth by (rule refl)
  have n: "(112589990684262 / 2 ^ 50 :: real) \<noteq> 3602879701896397 / 36028797018963968"
    by simp
  from a is_float64_tenth w n show ?thesis by blast
qed

section \<open>The constructors\<close>

lemma Bandit_init_Inr:
  "Bandit_init kk mean std b_std ds = Inr (b, ds') \<longleftrightarrow>
     0 \<le> std \<and> 1 \<le> kk \<and> ds' = sdrop (nat kk) ds \<and>
     (\<exists>best. np_argmax (map (\<lambda>d. mean + std * gauss d) (stake (nat kk) ds)) = Inr best \<and>
       b = \<lparr>k = kk, bandit_std = b_std,
             q_star = map (\<lambda>d. mean + std * gauss d) (stake (nat kk) ds), best_action = best\<rparr>)"
proof -
  have empty: "np_argmax (map (\<lambda>d. mean + std * gauss d) (stake (nat kk) ds)) = Inl ValueError"
    if "kk \<le> 0"
    using that by (simp add: np_argmax_def)
  show ?thesis
  proof (cases "0 \<le> std \<and> 1 \<le> kk")
    case True
    then show ?thesis
      by (auto simp: Bandit_init_def np_random_normal_size_def then_do_eq_Inr)
  next
    case False
    then have "Bandit_init kk mean std b_std ds = Inl ValueError"
      using empty by (auto simp: Bandit_init_def np_random_normal_size_def)
    with False show ?thesis by auto
  qed
qed

lemma Bandit_init_fields:
  assumes "Bandit_init kk mean std b_std ds = Inr (b, ds')"
  shows "k b = kk" "bandit_std b = b_std" "length (q_star b) = nat kk" "1 \<le> kk"
    "np_argmax (q_star b) = Inr (best_action b)"
  using assms by (auto simp: Bandit_init_Inr)

lemma Bandit_init_nonpositive: "kk \<le> 0 \<Longrightarrow> Bandit_init kk mean std b_std ds = Inl ValueError"
  by (auto simp: Bandit_init_def np_random_normal_size_def np_argmax_def)

lemma make_bandits_nonpositive:
  "kk \<le> 0 \<Longrightarrow> make_bandits (Suc n) kk mean std b_std ds = Inl ValueError"
  by (simp add: Bandit_init_nonpositive)

lemma make_bandits_Inr:
  "make_bandits n kk mean std b_std ds = Inr (bs, ds') \<Longrightarrow>
     length bs = n \<and>
     (\<forall>b \<in> set bs. k b = kk \<and> bandit_std b = b_std \<and> length (q_star b) = nat kk \<and> 1 \<le> kk)"
proof (induction n arbitrary: ds bs)
  case 0
  then show ?case by simp
next
  case (Suc n)
  from Suc.prems obtain b ds1 bs1 where
    b: "Bandit_init kk mean std b_std ds = Inr (b, ds1)" and
    rest: "make_bandits n kk mean std b_std ds1 = Inr (bs1, ds')" and
    bs: "bs = b # bs1"
    by (auto simp: then_do_eq_Inr)
  from Suc.IH [OF rest] Bandit_init_fields [OF b] bs show ?case by simp
qed

lemma KArmedTestbed_init_Inr:
  assumes "KArmedTestbed_init runs kk mean std b_std seed gen = Inr (e, ds)"
  shows "num_runs e = runs" "testbed_k e = kk" "testbed_bandit_std e = b_std"
    "length (bandits e) = nat runs"
    "\<forall>b \<in> set (bandits e). k b = kk \<and> bandit_std b = b_std \<and> length (q_star b) = nat kk \<and> 1 \<le> kk"
proof -
  from assms obtain bs ds0 where
    mk: "make_bandits (nat runs) kk mean std b_std ds0 = Inr (bs, ds)" and
    e: "e = \<lparr>num_runs = runs, testbed_k = kk, k_mean = mean, k_std = std,
             testbed_bandit_std = b_std, bandits = bs\<rparr>"
    by (auto simp: KArmedTestbed_init_def then_do_eq_Inr)
  from make_bandits_Inr [OF mk] e
  show "num_runs e = runs" "testbed_k e = kk" "testbed_bandit_std e = b_std"
    "length (bandits e) = nat runs"
    "\<forall>b \<in> set (bandits e). k b = kk \<and> bandit_std b = b_std \<and> length (q_star b) = nat kk \<and> 1 \<le> kk"
    by simp_all
qed

lemma KArmedTestbed_init_no_runs:
  "runs \<le> 0 \<Longrightarrow> 0 \<le> seed \<Longrightarrow> seed < 2 ^ 32 \<Longrightarrow>
   KArmedTestbed_init runs kk mean std b_std seed gen
     = Inr (\<lparr>num_runs = runs, testbed_k = kk, k_mean = mean, k_std = std,
              testbed_bandit_std = b_std, bandits = []\<rparr>, gen seed)"
  by (simp add: KArmedTestbed_init_def np_random_seed_def)

lemma KArmedTestbed_init_nonpositive:
  assumes "1 \<le> runs" "kk \<le> 0"
  shows "KArmedTestbed_init runs kk mean std b_std seed gen = Inl ValueError"
proof -
  from assms(1) obtain n where n: "nat runs = Suc n" by (cases "nat runs") auto
  show ?thesis
    unfolding KArmedTestbed_init_def n
    by (cases "np_random_seed gen seed")
       (simp_all add: np_random_seed_def make_bandits_nonpositive [OF assms(2)]
          del: make_bandits.simps split: if_splits)
qed

lemma EpsilonGreedy_init_Inr:
  "EpsilonGreedy_init e eps steps init weighted al = Inr ag \<longleftrightarrow>
     bandits e \<noteq> [] \<and> 0 \<le> k (hd (bandits e)) \<and> 0 \<le> init \<and>
     ag = \<lparr>env = e, epsilon = eps, max_steps = steps, num_actions = k (hd (bandits e)),
           use_weighted_average = weighted, alpha = al, initialisation = init,
           q_values = replicate (nat (k (hd (bandits e)))) init,
           action_counts = replicate (nat (k (hd (bandits e)))) 0\<rparr>"
  by (cases "bandits e")
     (auto simp: EpsilonGreedy_init_def reset_Inr then_do_eq_Inr np_zeros_def)

lemma EpsilonGreedy_init_negative:
  "init < 0 \<Longrightarrow> EpsilonGreedy_init e eps steps init weighted al
     = Inl (if bandits e = [] then IndexError else ValueError)"
  by (cases "bandits e")
     (auto simp: EpsilonGreedy_init_def reset_def then_do_def np_zeros_def split: sum.splits)

text \<open>The agent constructor on a constructed testbed with at least one run.\<close>

lemma EpsilonGreedy_init_on_testbed:
  assumes tb: "KArmedTestbed_init runs kk mean std b_std seed gen = Inr (e, ds)"
    and runs: "1 \<le> runs" and init: "0 \<le> init"
  shows "EpsilonGreedy_init e eps steps init weighted al
     = Inr \<lparr>env = e, epsilon = eps, max_steps = steps, num_actions = kk,
            use_weighted_average = weighted, alpha = al, initialisation = init,
            q_values = replicate (nat kk) init, action_counts = replicate (nat kk) 0\<rparr>"
proof -
  have len: "length (bandits e) = nat runs" using tb by (rule KArmedTestbed_init_Inr)
  then have ne: "bandits e \<noteq> []" using runs by auto
  then have "hd (bandits e) \<in> set (bandits e)" by simp
  with KArmedTestbed_init_Inr(5) [OF tb]
  have "k (hd (bandits e)) = kk" "1 \<le> kk" by auto
  with ne init show ?thesis by (simp add: EpsilonGreedy_init_Inr)
qed

text \<open>
  Claim C3, as amended. On a constructed bandit with \<open>K\<close> actions, \<^verbatim>\<open>step\<close> raises
  \<^verbatim>\<open>IndexError\<close> for an action below \<open>-K\<close> or from \<open>K\<close> on. For an action from \<open>-K\<close> to
  \<open>-1\<close> it raises nothing: NumPy counts the index from the end, and \<^verbatim>\<open>step\<close> returns a
  reward around the true value of arm \<open>K + action\<close> (the noise deviation being non-negative).
\<close>

theorem step_index:
  assumes "Bandit_init kk mean std b_std ds = Inr (b, ds')"
  shows "(a < - kk \<or> kk \<le> a \<longrightarrow> step b a d = Inl IndexError) \<and>
         (- kk \<le> a \<and> a < 0 \<and> 0 \<le> b_std \<longrightarrow>
            step b a d = Inr (q_star b ! nat (kk + a) + b_std * gauss d, b))"
proof -
  have len: "int (length (q_star b)) = kk" and std: "bandit_std b = b_std"
    using Bandit_init_fields [OF assms] by simp_all
  show ?thesis
    by (auto simp: step_def np_index_def np_random_normal_def len std)
qed

theorem step_index_witness:
  "Bandit_init 2 0 1 1 (example_gen 0) = Inr (example_bandit, sconst (example_draw 0)) \<and>
   step example_bandit 2 (example_draw 0) = Inl IndexError \<and>
   step example_bandit (- 3) (example_draw 0) = Inl IndexError \<and>
   step example_bandit (- 2) (example_draw 5) = Inr (6, example_bandit)"
proof -
  have q: "q_star example_bandit = [1, 3]" by (simp add: example_bandit_def)
  have g: "gauss (example_draw 5) = 5" by (simp add: example_draw_def)
  show ?thesis
    using step_index [OF example_bandit_init [of 0], where a = 2 and d = "example_draw 0"]
      step_index [OF example_bandit_init [of 0], where a = "- 3" and d = "example_draw 0"]
      step_index [OF example_bandit_init [of 0], where a = "- 2" and d = "example_draw 5"]
      example_bandit_init [of 0]
    by (simp add: q g)
qed

theorem step_negative_action_counterexample:
  "Bandit_init 2 0 1 1 (example_gen 0) = Inr (example_bandit, sconst (example_draw 0)) \<and>
   step example_bandit (- 1) (example_draw 0) = Inr (3, example_bandit)"
  by (simp add: example_bandit_init step_def np_index_def np_random_normal_def
      example_bandit_def example_draw_def)

text \<open>
  Claim C4, as amended. Neither constructor validates \<^verbatim>\<open>epsilon\<close>, \<^verbatim>\<open>alpha\<close>, \<^verbatim>\<open>max_steps\<close>
  or \<^verbatim>\<open>num_runs\<close>. On a constructed testbed with at least one run and with a non-negative
  initial value, the agent constructor returns an agent for every \<^verbatim>\<open>epsilon\<close>, \<^verbatim>\<open>alpha\<close> and
  \<^verbatim>\<open>max_steps\<close> and stores them as given. The testbed constructor returns an empty testbed for
  a non-positive \<^verbatim>\<open>num_runs\<close>, the seed being one that NumPy accepts. A non-positive number
  of actions makes the testbed constructor raise \<^verbatim>\<open>ValueError\<close> as soon as there is one run
  to build.
\<close>

theorem constructors_validation:
  "(KArmedTestbed_init runs kk mean std b_std seed gen = Inr (e, ds) \<and> 1 \<le> runs \<and> 0 \<le> init \<longrightarrow>
      (\<exists>ag. EpsilonGreedy_init e eps steps init weighted al = Inr ag \<and>
            epsilon ag = eps \<and> alpha ag = al \<and> max_steps ag = steps)) \<and>
   (runs \<le> 0 \<and> 0 \<le> seed \<and> seed < 2 ^ 32 \<longrightarrow>
      KArmedTestbed_init runs kk mean std b_std seed gen
        = Inr (\<lparr>num_runs = runs, testbed_k = kk, k_mean = mean, k_std = std,
                 testbed_bandit_std = b_std, bandits = []\<rparr>, gen seed)) \<and>
   (1 \<le> runs \<and> kk \<le> 0 \<longrightarrow>
      KArmedTestbed_init runs kk mean std b_std seed gen = Inl ValueError)"
proof (intro conjI impI)
  assume "KArmedTestbed_init runs kk mean std b_std seed gen = Inr (e, ds) \<and> 1 \<le> runs \<and> 0 \<le> init"
  then have tb: "KArmedTestbed_init runs kk mean std b_std seed gen = Inr (e, ds)"
    and runs: "1 \<le> runs" and init: "0 \<le> init" by simp_all
  show "\<exists>ag. EpsilonGreedy_init e eps steps init weighted al = Inr ag \<and>
            epsilon ag = eps \<and> alpha ag = al \<and> max_steps ag = steps"
    by (simp add: EpsilonGreedy_init_on_testbed [OF tb runs init])
next
  assume "runs \<le> 0 \<and> 0 \<le> seed \<and> seed < 2 ^ 32"
  then show "KArmedTestbed_init runs kk mean std b_std seed gen
        = Inr (\<lparr>num_runs = runs, testbed_k = kk, k_mean = mean, k_std = std,
                 testbed_bandit_std = b_std, bandits = []\<rparr>, gen seed)"
    by (simp add: KArmedTestbed_init_no_runs)
next
  assume "1 \<le> runs \<and> kk \<le> 0"
  then show "KArmedTestbed_init runs kk mean std b_std seed gen = Inl ValueError"
    by (simp add: KArmedTestbed_init_nonpositive)
qed

theorem constructors_validation_witness:
  "KArmedTestbed_init 1 2 0 1 1 0 example_gen = Inr (example_testbed, sconst (example_draw 0)) \<and>
   (\<exists>ag. EpsilonGreedy_init example_testbed (- 1) 0 0 True 3 = Inr ag \<and>
         epsilon ag = - 1 \<and> alpha ag = 3 \<and> max_steps ag = 0) \<and>
   KArmedTestbed_init (- 4) 2 0 1 1 0 example_gen
     = Inr (\<lparr>num_runs = - 4, testbed_k = 2, k_mean = 0, k_std = 1,
              testbed_bandit_std = 1, bandits = []\<rparr>, example_gen 0) \<and>
   KArmedTestbed_init 1 0 0 1 1 0 example_gen = Inl ValueError"
  using constructors_validation [of 1 2 0 1 1 0 example_gen example_testbed
      "sconst (example_draw 0)" 0 "- 1" 0 True 3]
    constructors_validation [of "- 4" 2 0 1 1 0 example_gen]
    constructors_validation [of 1 0 0 1 1 0 example_gen]
    example_testbed_init
  by simp

theorem invalid_configuration_counterexample:
  "KArmedTestbed_init 1 2 0 1 1 0 example_gen = Inr (example_testbed, sconst (example_draw 0)) \<and>
   EpsilonGreedy_init example_testbed 2 (- 5) 0 False 7 = Inr (example_agent 2 (- 5) 0 False 7) \<and>
   KArmedTestbed_init 0 2 0 1 1 0 example_gen
     = Inr (\<lparr>num_runs = 0, testbed_k = 2, k_mean = 0, k_std = 1,
              testbed_bandit_std = 1, bandits = []\<rparr>, example_gen 0)"
proof -
  have none: "KArmedTestbed_init 0 2 0 1 1 0 example_gen
     = Inr (\<lparr>num_runs = 0, testbed_k = 2, k_mean = 0, k_std = 1,
              testbed_bandit_std = 1, bandits = []\<rparr>, example_gen 0)"
    by (simp add: KArmedTestbed_init_def np_random_seed_def)
  show ?thesis
    using none by (simp add: example_testbed_init example_agent_init)
qed

section \<open>Arg-max\<close>

lemma argmax_scan_first:
  assumes "best < length pre" "pre ! best = m"
    and "\<forall>j < length pre. pre ! j \<le> m" "\<forall>j < best. pre ! j < m"
  shows "is_first_argmax (pre @ xs) (argmax_scan xs (length pre) best m)"
  using assms
proof (induction xs arbitrary: pre best m)
  case Nil
  then show ?case by (simp add: is_first_argmax_def)
next
  case (Cons x xs)
  show ?case
  proof (cases "m < x")
    case True
    have le: "\<forall>j < length (pre @ [x]). (pre @ [x]) ! j \<le> x"
      using Cons.prems(3) True by (auto simp: nth_append less_Suc_eq)
    have lt: "\<forall>j < length pre. (pre @ [x]) ! j < x"
      using Cons.prems(3) True by (auto simp: nth_append intro: le_less_trans)
    have "is_first_argmax ((pre @ [x]) @ xs) (argmax_scan xs (length (pre @ [x])) (length pre) x)"
      by (rule Cons.IH) (use le lt in simp_all)
    with True show ?thesis by simp
  next
    case False
    have le: "\<forall>j < length (pre @ [x]). (pre @ [x]) ! j \<le> m"
      using Cons.prems(3) False by (auto simp: nth_append less_Suc_eq)
    have lt: "\<forall>j < best. (pre @ [x]) ! j < m"
      using Cons.prems(1,4) by (auto simp: nth_append)
    have b: "best < length (pre @ [x])" "(pre @ [x]) ! best = m"
      using Cons.prems(1,2) by (simp_all add: nth_append)
    have "is_first_argmax ((pre @ [x]) @ xs) (argmax_scan xs (length (pre @ [x])) best m)"
      using b le lt by (rule Cons.IH)
    with False show ?thesis by simp
  qed
qed

lemma np_argmax_first: "np_argmax xs = Inr i \<Longrightarrow> is_first_argmax xs i"
proof (cases xs)
  case Nil
  assume "np_argmax xs = Inr i"
  with Nil show ?thesis by (simp add: np_argmax_def)
next
  case (Cons x ys)
  assume "np_argmax xs = Inr i"
  with Cons have i: "i = argmax_scan ys (length [x]) 0 x" by (simp add: np_argmax_def)
  have "is_first_argmax ([x] @ ys) (argmax_scan ys (length [x]) 0 x)"
    by (rule argmax_scan_first) simp_all
  with i Cons show ?thesis by simp
qed

lemma max_value_Max: "xs \<noteq> [] \<Longrightarrow> max_value xs = Max (set xs)"
proof (cases xs)
  case Nil
  assume "xs \<noteq> []"
  with Nil show ?thesis by simp
next
  case (Cons x ys)
  have "Max (set (x # ys)) = fold max ys x" by (rule Max.set_eq_fold)
  with Cons show ?thesis by (simp only: max_value.simps)
qed

lemma tied_indices_range: "i \<in> set (tied_indices xs) \<Longrightarrow> i < length xs"
  by (simp add: tied_indices_def)

lemma tied_indices_nonempty:
  assumes "xs \<noteq> []"
  shows "tied_indices xs \<noteq> []"
proof -
  have "Max (set xs) \<in> set xs" using assms by (intro Max_in) simp_all
  then obtain i where "i < length xs" "xs ! i = Max (set xs)" by (auto simp: in_set_conv_nth)
  then have "i \<in> set (tied_indices xs)"
    using assms by (simp add: tied_indices_def max_value_Max)
  then show ?thesis by auto
qed

lemma tied_indices_unique:
  assumes "i < length xs" "\<forall>j < length xs. j \<noteq> i \<longrightarrow> xs ! j < xs ! i"
  shows "set (tied_indices xs) = {i}"
proof -
  have ne: "xs \<noteq> []" using assms(1) by auto
  have "Max (set xs) = xs ! i"
  proof (rule Max_eqI)
    show "finite (set xs)" by simp
    show "xs ! i \<in> set xs" using assms(1) by simp
    fix y assume "y \<in> set xs"
    then obtain j where "j < length xs" "y = xs ! j" by (auto simp: in_set_conv_nth)
    then show "y \<le> xs ! i" using assms(2) by (cases "j = i") (auto intro: less_imp_le)
  qed
  then have m: "max_value xs = xs ! i" using ne by (simp add: max_value_Max)
  show ?thesis
    using assms by (auto simp: tied_indices_def m)
qed

lemma argmax_ties_random_range:
  assumes "xs \<noteq> []"
  shows "\<exists>a. argmax_ties_random xs d = Inr (int a) \<and> a \<in> set (tied_indices xs)"
proof -
  have "tied_indices xs \<noteq> []" using assms by (rule tied_indices_nonempty)
  then have "raw_pick d mod length (tied_indices xs) < length (tied_indices xs)" by simp
  then have "tied_indices xs ! (raw_pick d mod length (tied_indices xs)) \<in> set (tied_indices xs)"
    by (rule nth_mem)
  then show ?thesis using assms by (simp add: argmax_ties_random_def)
qed

lemma np_random_random_range: "0 \<le> np_random_random d" "np_random_random d < 1"
  by (simp_all add: np_random_random_def)

lemma act_range:
  assumes "1 \<le> num_actions ag" "length (q_values ag) = nat (num_actions ag)"
  shows "\<exists>a. act ag d = Inr a \<and> 0 \<le> a \<and> a < num_actions ag"
proof (cases "np_random_random d < epsilon ag")
  case True
  have "raw_pick d mod nat (num_actions ag) < nat (num_actions ag)"
    using assms(1) by simp
  then have "int (raw_pick d mod nat (num_actions ag)) < num_actions ag"
    using assms(1) by linarith
  with True assms(1) show ?thesis
    by (simp add: act_def np_random_randint_def)
next
  case False
  have "q_values ag \<noteq> []" using assms by auto
  from argmax_ties_random_range [OF this, of d]
  obtain a where a: "argmax_ties_random (q_values ag) d = Inr (int a)"
    "a \<in> set (tied_indices (q_values ag))" by blast
  have "a < length (q_values ag)" using a(2) by (rule tied_indices_range)
  then have "int a < num_actions ag" using assms by simp
  with False a(1) show ?thesis by (simp add: act_def)
qed

lemma act_greedy:
  assumes "epsilon ag = 0" "i < length (q_values ag)"
    and "\<forall>j < length (q_values ag). j \<noteq> i \<longrightarrow> q_values ag ! j < q_values ag ! i"
  shows "act ag d = Inr (int i)"
proof -
  have ne: "q_values ag \<noteq> []" using assms(2) by auto
  from argmax_ties_random_range [OF ne, of d]
  obtain a where a: "argmax_ties_random (q_values ag) d = Inr (int a)"
    "a \<in> set (tied_indices (q_values ag))" by blast
  have "a = i" using a(2) tied_indices_unique [OF assms(2,3)] by simp
  moreover have "\<not> np_random_random d < epsilon ag"
    using np_random_random_range(1) [of d] assms(1) by simp
  ultimately show ?thesis using a(1) by (simp add: act_def)
qed

section \<open>What the operations leave unchanged\<close>

lemma same_config_refl: "same_config ag ag"
  by (simp add: same_config_def)

lemma same_config_fields:
  assumes "same_config ag ag'"
  shows "env ag' = env ag" "epsilon ag' = epsilon ag" "max_steps ag' = max_steps ag"
    "num_actions ag' = num_actions ag" "use_weighted_average ag' = use_weighted_average ag"
    "alpha ag' = alpha ag" "initialisation ag' = initialisation ag"
proof -
  from assms have eq: "ag' = ag\<lparr>q_values := q_values ag', action_counts := action_counts ag'\<rparr>"
    by (simp add: same_config_def)
  show "env ag' = env ag" by (subst eq) simp
  show "epsilon ag' = epsilon ag" by (subst eq) simp
  show "max_steps ag' = max_steps ag" by (subst eq) simp
  show "num_actions ag' = num_actions ag" by (subst eq) simp
  show "use_weighted_average ag' = use_weighted_average ag" by (subst eq) simp
  show "alpha ag' = alpha ag" by (subst eq) simp
  show "initialisation ag' = initialisation ag" by (subst eq) simp
qed

lemma same_config_trans:
  assumes "same_config ag ag1" "same_config ag1 ag2"
  shows "same_config ag ag2"
proof -
  from assms(1) have 1: "ag1 = ag\<lparr>q_values := q_values ag1, action_counts := action_counts ag1\<rparr>"
    by (simp add: same_config_def)
  from assms(2) have 2: "ag2 = ag1\<lparr>q_values := q_values ag2, action_counts := action_counts ag2\<rparr>"
    by (simp add: same_config_def)
  have "ag2 = (ag\<lparr>q_values := q_values ag1, action_counts := action_counts ag1\<rparr>)
                \<lparr>q_values := q_values ag2, action_counts := action_counts ag2\<rparr>"
    using 1 2 by simp
  then show ?thesis by (simp add: same_config_def)
qed

lemma wf_agent_same_config:
  assumes "wf_agent ag" "same_config ag ag'"
    and "length (q_values ag') = length (q_values ag)"
    and "length (action_counts ag') = length (action_counts ag)"
  shows "wf_agent ag'"
  using assms(1,3,4) same_config_fields [OF assms(2)] by (simp add: wf_agent_def)

lemma reset_same:
  assumes "reset ag = Inr ag'"
  shows "same_config ag ag'" "length (q_values ag') = nat (num_actions ag)"
    "length (action_counts ag') = nat (num_actions ag)"
  using assms by (simp_all add: reset_Inr same_config_def)

lemma weighted_update_same:
  assumes "weighted_update ag a r = Inr ag'"
  shows "same_config ag ag'" "length (q_values ag') = length (q_values ag)"
    "action_counts ag' = action_counts ag"
  using assms by (auto simp: weighted_update_Inr same_config_def)

lemma simple_update_same:
  assumes "simple_update ag a r = Inr ag'"
  shows "same_config ag ag'" "length (q_values ag') = length (q_values ag)"
    "length (action_counts ag') = length (action_counts ag)"
  using assms by (auto simp: simple_update_Inr same_config_def)

lemma update_same:
  assumes "(if use_weighted_average ag then weighted_update ag a r
            else simple_update ag a r) = Inr ag'"
  shows "same_config ag ag'" "length (q_values ag') = length (q_values ag)"
    "length (action_counts ag') = length (action_counts ag)"
  using assms weighted_update_same [of ag a r ag'] simple_update_same [of ag a r ag']
  by (auto split: if_splits)

lemma step_Inr: "step b a d = Inr (r, b') \<Longrightarrow> b' = b"
  by (auto simp: step_def then_do_eq_Inr)

lemma train_step_Inr:
  assumes "train_step (ag, b, rw, op) i d = Inr (ag', b', rw', op')"
  shows "b' = b" "length rw' = length rw" "length op' = length op"
    "\<exists>a r. (if use_weighted_average ag then weighted_update ag a r
            else simple_update ag a r) = Inr ag'"
proof -
  from assms obtain a r b1 where
    st: "step b a d = Inr (r, b1)" and
    up: "(if use_weighted_average ag then weighted_update ag a r
          else simple_update ag a r) = Inr ag'" and
    res: "b' = b1" "rw' = rw[i := r]"
      "op' = (if a = int (best_action b1) then op[i := True] else op)"
    unfolding train_step_def by (auto simp: then_do_eq_Inr)
  show "b' = b" using step_Inr [OF st] res(1) by simp
  show "length rw' = length rw" using res(2) by simp
  show "length op' = length op" using res(3) by simp
  show "\<exists>a r. (if use_weighted_average ag then weighted_update ag a r
            else simple_update ag a r) = Inr ag'" using up by blast
qed

text \<open>
  An invariant that \<^verbatim>\<open>reset\<close> and the configured update rule preserve is preserved by the
  loops of \<^verbatim>\<open>train\<close>.
\<close>

lemma train_steps_Inr:
  assumes upd: "\<And>ag a r ag'. P ag \<Longrightarrow>
      (if use_weighted_average ag then weighted_update ag a r
       else simple_update ag a r) = Inr ag' \<Longrightarrow> P ag'"
    and run: "train_steps steps (ag, b, rw, op) ds = Inr ((ag', b', rw', op'), ds')"
    and P: "P ag"
  shows "b' = b \<and> same_config ag ag' \<and> P ag' \<and>
         length (q_values ag') = length (q_values ag) \<and>
         length (action_counts ag') = length (action_counts ag) \<and>
         length rw' = length rw \<and> length op' = length op"
  using run P
proof (induction steps arbitrary: ag rw op ds)
  case Nil
  then show ?case by (simp add: same_config_refl)
next
  case (Cons i steps)
  from Cons.prems(1) obtain ag1 b1 rw1 op1 where
    one: "train_step (ag, b, rw, op) i (shd ds) = Inr (ag1, b1, rw1, op1)" and
    rest: "train_steps steps (ag1, b1, rw1, op1) (stl ds) = Inr ((ag', b', rw', op'), ds')"
    by (auto simp: then_do_eq_Inr)
  note f = train_step_Inr [OF one]
  from f(4) obtain a r where up: "(if use_weighted_average ag then weighted_update ag a r
            else simple_update ag a r) = Inr ag1" by blast
  have P1: "P ag1" using Cons.prems(2) up by (rule upd)
  have rest': "train_steps steps (ag1, b, rw1, op1) (stl ds) = Inr ((ag', b', rw', op'), ds')"
    using rest f(1) by simp
  from Cons.IH [OF rest' P1] update_same [OF up] f(2,3)
  show ?case by (auto intro: same_config_trans)
qed

lemma train_run_Inr:
  assumes upd: "\<And>ag a r ag'. P ag \<Longrightarrow>
      (if use_weighted_average ag then weighted_update ag a r
       else simple_update ag a r) = Inr ag' \<Longrightarrow> P ag'"
    and rst: "\<And>ag ag'. P ag \<Longrightarrow> reset ag = Inr ag' \<Longrightarrow> P ag'"
    and run: "train_run ag b ds = Inr ((ag', b', rw, op), ds')"
    and P: "P ag"
  shows "b' = b \<and> same_config ag ag' \<and> P ag' \<and>
         length (q_values ag') = nat (num_actions ag) \<and>
         length (action_counts ag') = nat (num_actions ag) \<and>
         length rw = nat (max_steps ag) \<and> length op = nat (max_steps ag)"
proof -
  from run obtain ag1 rw0 where
    r: "reset ag = Inr ag1" and
    z: "np_zeros (max_steps ag1) = Inr rw0" and
    st: "train_steps [0..<nat (max_steps ag1)]
           (ag1, b, rw0, replicate (nat (max_steps ag1)) False) ds
         = Inr ((ag', b', rw, op), ds')"
    unfolding train_run_def by (auto simp: then_do_eq_Inr)
  note s1 = reset_same [OF r]
  have m: "max_steps ag1 = max_steps ag" using s1(1) by (rule same_config_fields)
  have len0: "length rw0 = nat (max_steps ag)"
    using z m by (auto simp: np_zeros_def split: if_splits)
  have P1: "P ag1" using P r by (rule rst)
  from train_steps_Inr [of P, OF upd st P1] s1 len0 m
  show ?thesis by (auto intro: same_config_trans)
qed

lemma restore_bandit:
  assumes "same_config ag ag'" "b' = bandits (env ag) ! r"
  shows "ag'\<lparr>env := (env ag')\<lparr>bandits := (bandits (env ag'))[r := b']\<rparr>\<rparr> = ag'"
  using assms(2) same_config_fields(1) [OF assms(1)] by simp

lemma train_runs_Inr:
  assumes upd: "\<And>ag a r ag'. P ag \<Longrightarrow>
      (if use_weighted_average ag then weighted_update ag a r
       else simple_update ag a r) = Inr ag' \<Longrightarrow> P ag'"
    and rst: "\<And>ag ag'. P ag \<Longrightarrow> reset ag = Inr ag' \<Longrightarrow> P ag'"
    and run: "train_runs rs ag rt ot ds = Inr (ag', rt', ot', ds')"
    and P: "P ag"
  shows "same_config ag ag' \<and> P ag'"
  using run P
proof (induction rs arbitrary: ag rt ot ds)
  case Nil
  then show ?case by (simp add: same_config_refl)
next
  case (Cons r rs)
  from Cons.prems(1) obtain ag1 b1 rw op ds1 where
    one: "train_run ag (bandits (env ag) ! r) ds = Inr ((ag1, b1, rw, op), ds1)" and
    rest: "train_runs rs (ag1\<lparr>env := (env ag1)\<lparr>bandits := (bandits (env ag1))[r := b1]\<rparr>\<rparr>)
             (dict_set rt r rw) (dict_set ot r op) ds1 = Inr (ag', rt', ot', ds')"
    by (auto simp: then_do_eq_Inr)
  from train_run_Inr [of P, OF upd rst one Cons.prems(2)]
  have f: "b1 = bandits (env ag) ! r" "same_config ag ag1" "P ag1" by simp_all
  have rest': "train_runs rs ag1 (dict_set rt r rw) (dict_set ot r op) ds1
                 = Inr (ag', rt', ot', ds')"
    using rest restore_bandit [OF f(2,1)] by simp
  from Cons.IH [OF rest' f(3)] f(2) show ?case by (auto intro: same_config_trans)
qed

lemma train_Inr:
  assumes upd: "\<And>ag a r ag'. P ag \<Longrightarrow>
      (if use_weighted_average ag then weighted_update ag a r
       else simple_update ag a r) = Inr ag' \<Longrightarrow> P ag'"
    and rst: "\<And>ag ag'. P ag \<Longrightarrow> reset ag = Inr ag' \<Longrightarrow> P ag'"
    and run: "train ag ds = Inr (rdf, odf, ag', ds')"
    and P: "P ag"
  shows "same_config ag ag' \<and> P ag'"
proof -
  from run obtain rt ot where
    "train_runs [0..<length (bandits (env ag))] ag [] [] ds = Inr (ag', rt, ot, ds')"
    unfolding train_def by (auto simp: then_do_eq_Inr)
  from train_runs_Inr [of P, OF upd rst this P] show ?thesis .
qed

section \<open>Invariants of the reachable states\<close>

lemma wf_agent_init:
  assumes tb: "KArmedTestbed_init runs kk mean std b_std seed gen = Inr (e, ds)"
    and ag: "EpsilonGreedy_init e eps steps init weighted al = Inr ag"
  shows "wf_agent ag"
proof -
  note t = KArmedTestbed_init_Inr [OF tb]
  from ag have ne: "bandits e \<noteq> []" and init: "0 \<le> init" and
    eq: "ag = \<lparr>env = e, epsilon = eps, max_steps = steps, num_actions = k (hd (bandits e)),
           use_weighted_average = weighted, alpha = al, initialisation = init,
           q_values = replicate (nat (k (hd (bandits e)))) init,
           action_counts = replicate (nat (k (hd (bandits e)))) 0\<rparr>"
    by (simp_all add: EpsilonGreedy_init_Inr)
  have "hd (bandits e) \<in> set (bandits e)" using ne by simp
  with t(5) have hd: "k (hd (bandits e)) = kk" "1 \<le> kk" by auto
  have runs: "num_runs e = int (length (bandits e))"
    using t(1,4) ne by (cases "0 \<le> runs") auto
  show ?thesis
    unfolding wf_agent_def using t(3,5) hd ne init runs by (simp add: eq)
qed

lemma wf_agent_reset:
  assumes "wf_agent ag" "reset ag = Inr ag'"
  shows "wf_agent ag'"
proof -
  note s = reset_same [OF assms(2)]
  show ?thesis
    using assms(1) s(1)
  proof (rule wf_agent_same_config)
    show "length (q_values ag') = length (q_values ag)"
      using s(2) assms(1) by (simp add: wf_agent_def)
    show "length (action_counts ag') = length (action_counts ag)"
      using s(3) assms(1) by (simp add: wf_agent_def)
  qed
qed

lemma wf_agent_update:
  assumes "wf_agent ag"
    and "(if use_weighted_average ag then weighted_update ag a r
          else simple_update ag a r) = Inr ag'"
  shows "wf_agent ag'"
  using assms(1) update_same [OF assms(2)] by (rule wf_agent_same_config)

lemma wf_agent_train:
  assumes "wf_agent ag" "train ag ds = Inr (rdf, odf, ag', ds')"
  shows "wf_agent ag'"
  using train_Inr [of wf_agent, OF wf_agent_update wf_agent_reset assms(2,1)] by simp

lemma reachable_wf: "reachable ag \<Longrightarrow> wf_agent ag"
proof (induction rule: reachable.induct)
  case (by_init runs kk mean std b_std seed gen e ds eps steps init weighted al ag)
  then show ?case by (rule wf_agent_init)
next
  case (by_reset ag ag')
  then show ?case by (auto intro: wf_agent_reset)
next
  case (by_simple_update ag action reward ag')
  from by_simple_update.IH simple_update_same [OF by_simple_update.hyps(2)]
  show ?case by (rule wf_agent_same_config)
next
  case (by_weighted_update ag action reward ag')
  note s = weighted_update_same [OF by_weighted_update.hyps(2)]
  from by_weighted_update.IH s(1,2) show ?case
    by (rule wf_agent_same_config) (simp add: s(3))
next
  case (by_train ag ds rdf odf ag' ds')
  then show ?case by (auto intro: wf_agent_train)
qed

lemma count_inv_reset: "reset ag = Inr ag' \<Longrightarrow> count_inv ag'"
  by (auto simp: reset_Inr count_inv_def)

lemma count_inv_simple_update:
  assumes len: "length (q_values ag) = length (action_counts ag)"
    and inv: "count_inv ag"
    and up: "simple_update ag a r = Inr ag'"
  shows "count_inv ag'"
proof -
  from up len obtain i where
    i: "np_index (length (action_counts ag)) a = Inr i" and
    eq: "ag' = ag\<lparr>action_counts := (action_counts ag)[i := action_counts ag ! i + 1],
                  q_values := (q_values ag)[i := q_values ag ! i
                     + (1 / real_of_int (action_counts ag ! i + 1)) * (r - q_values ag ! i)]\<rparr>"
    by (auto simp: simple_update_Inr)
  have il: "i < length (action_counts ag)" using i by (rule np_index_less)
  show ?thesis
    unfolding count_inv_def
  proof (intro allI impI)
    fix n assume n: "n < length (action_counts ag')"
    then have nl: "n < length (action_counts ag)" by (simp add: eq)
    from inv nl have old: "0 \<le> action_counts ag ! n"
      "action_counts ag ! n = 0 \<longrightarrow> q_values ag ! n = initialisation ag"
      by (simp_all add: count_inv_def)
    show "0 \<le> action_counts ag' ! n \<and>
          (action_counts ag' ! n = 0 \<longrightarrow> q_values ag' ! n = initialisation ag')"
    proof (cases "n = i")
      case True
      then show ?thesis using old(1) il by (simp add: eq)
    next
      case False
      then show ?thesis using old by (simp add: eq)
    qed
  qed
qed

lemma sample_average_inv_update:
  assumes "wf_agent ag \<and> count_inv ag \<and> \<not> use_weighted_average ag"
    and "(if use_weighted_average ag then weighted_update ag a r
          else simple_update ag a r) = Inr ag'"
  shows "wf_agent ag' \<and> count_inv ag' \<and> \<not> use_weighted_average ag'"
proof -
  from assms have up: "simple_update ag a r = Inr ag'" by simp
  have len: "length (q_values ag) = length (action_counts ag)"
    using assms(1) by (simp add: wf_agent_def)
  have "wf_agent ag'" using assms by (auto intro: wf_agent_update)
  moreover have "count_inv ag'" using len assms(1) up by (auto intro: count_inv_simple_update)
  moreover have "\<not> use_weighted_average ag'"
    using same_config_fields(5) [OF simple_update_same(1) [OF up]] assms(1) by simp
  ultimately show ?thesis by simp
qed

lemma sample_average_inv_reset:
  assumes "wf_agent ag \<and> count_inv ag \<and> \<not> use_weighted_average ag"
    and "reset ag = Inr ag'"
  shows "wf_agent ag' \<and> count_inv ag' \<and> \<not> use_weighted_average ag'"
  using assms wf_agent_reset [of ag ag'] count_inv_reset [of ag ag']
    same_config_fields(5) [OF reset_same(1) [OF assms(2)]]
  by simp

lemma sample_average_reachable_inv:
  "sample_average_reachable ag \<Longrightarrow> wf_agent ag \<and> count_inv ag"
proof (induction rule: sample_average_reachable.induct)
  case (sa_init runs kk mean std b_std seed gen e ds eps steps init weighted al ag)
  have "count_inv ag"
    using sa_init(2) by (auto simp: EpsilonGreedy_init_Inr count_inv_def)
  with sa_init show ?case by (auto intro: wf_agent_init)
next
  case (sa_reset ag ag')
  then show ?case by (auto intro: wf_agent_reset count_inv_reset)
next
  case (sa_simple_update ag action reward ag')
  have "wf_agent ag'"
    using sa_simple_update.IH simple_update_same [OF sa_simple_update.hyps(2)]
    by (auto intro: wf_agent_same_config)
  moreover have "length (q_values ag) = length (action_counts ag)"
    using sa_simple_update.IH by (simp add: wf_agent_def)
  then have "count_inv ag'"
    using sa_simple_update.IH sa_simple_update.hyps(2)
    by (auto intro: count_inv_simple_update)
  ultimately show ?case by simp
next
  case (sa_train ag ds rdf odf ag' ds')
  have P: "wf_agent ag \<and> count_inv ag \<and> \<not> use_weighted_average ag"
    using sa_train.IH sa_train.hyps(2) by simp
  from train_Inr [of "\<lambda>ag. wf_agent ag \<and> count_inv ag \<and> \<not> use_weighted_average ag",
      OF sample_average_inv_update sample_average_inv_reset sa_train.hyps(3) P]
  show ?case by simp
qed

text \<open>
  The counts never become negative, so the division in \<^verbatim>\<open>simple_update\<close> is by a count of
  at least one in every state the operations of the agent produce.
\<close>

lemma counts_nonneg_update:
  assumes "\<forall>c \<in> set (action_counts ag). 0 \<le> c"
    and "(if use_weighted_average ag then weighted_update ag a r
          else simple_update ag a r) = Inr ag'"
  shows "\<forall>c \<in> set (action_counts ag'). 0 \<le> c"
proof (cases "use_weighted_average ag")
  case True
  with assms(2) have "action_counts ag' = action_counts ag"
    by (simp add: weighted_update_same)
  with assms(1) show ?thesis by simp
next
  case False
  with assms(2) obtain i where
    i: "np_index (length (action_counts ag)) a = Inr i" and
    cs: "action_counts ag' = (action_counts ag)[i := action_counts ag ! i + 1]"
    by (auto simp: simple_update_Inr)
  have "i < length (action_counts ag)" using i by (rule np_index_less)
  then have "0 \<le> action_counts ag ! i" using assms(1) by simp
  then have "\<forall>c \<in> insert (action_counts ag ! i + 1) (set (action_counts ag)). 0 \<le> c"
    using assms(1) by simp
  then show ?thesis
    unfolding cs using set_update_subset_insert [of "action_counts ag" i] by blast
qed

lemma counts_nonneg_reset:
  assumes "reset ag = Inr ag'"
  shows "\<forall>c \<in> set (action_counts ag'). 0 \<le> c"
  using assms by (auto simp: reset_Inr)

lemma reachable_counts_nonneg:
  "reachable ag \<Longrightarrow> \<forall>c \<in> set (action_counts ag). 0 \<le> c"
proof (induction rule: reachable.induct)
  case (by_init runs kk mean std b_std seed gen e ds eps steps init weighted al ag)
  then show ?case by (auto simp: EpsilonGreedy_init_Inr)
next
  case (by_reset ag ag')
  then show ?case by (auto dest: counts_nonneg_reset)
next
  case (by_simple_update ag action reward ag')
  from by_simple_update.hyps(2) obtain i where
    i: "np_index (length (action_counts ag)) action = Inr i" and
    cs: "action_counts ag' = (action_counts ag)[i := action_counts ag ! i + 1]"
    by (auto simp: simple_update_Inr)
  have "i < length (action_counts ag)" using i by (rule np_index_less)
  then have "0 \<le> action_counts ag ! i" using by_simple_update.IH by simp
  then have "\<forall>c \<in> insert (action_counts ag ! i + 1) (set (action_counts ag)). 0 \<le> c"
    using by_simple_update.IH by simp
  then show ?case
    unfolding cs using set_update_subset_insert [of "action_counts ag" i] by blast
next
  case (by_weighted_update ag action reward ag')
  then show ?case by (simp add: weighted_update_same)
next
  case (by_train ag ds rdf odf ag' ds')
  have "same_config ag ag' \<and> (\<forall>c \<in> set (action_counts ag'). 0 \<le> c)"
  proof (rule train_Inr [of "\<lambda>ag. \<forall>c \<in> set (action_counts ag). 0 \<le> c",
        OF _ _ by_train.hyps(2) by_train.IH])
    fix ag1 a r ag2
    assume "\<forall>c \<in> set (action_counts ag1). 0 \<le> c"
      and "(if use_weighted_average ag1 then weighted_update ag1 a r
            else simple_update ag1 a r) = Inr ag2"
    then show "\<forall>c \<in> set (action_counts ag2). 0 \<le> c" by (rule counts_nonneg_update)
  next
    fix ag1 ag2 :: agent
    assume "reset ag1 = Inr ag2"
    then show "\<forall>c \<in> set (action_counts ag2). 0 \<le> c" by (rule counts_nonneg_reset)
  qed
  then show ?case by simp
qed

section \<open>The agent's state and its action selection\<close>

lemma example_reachable:
  "0 \<le> init \<Longrightarrow> reachable (example_agent eps steps init weighted al)"
  using example_testbed_init example_agent_init [of init eps steps weighted al]
  by (rule reachable.by_init)

lemma example_sample_average_reachable:
  "0 \<le> init \<Longrightarrow> sample_average_reachable (example_agent eps steps init weighted al)"
  using example_testbed_init example_agent_init [of init eps steps weighted al]
  by (rule sample_average_reachable.sa_init)

text \<open>
  Claim C2, as amended. In every state the operations of the agent produce, both arrays
  have length \<^verbatim>\<open>num_actions\<close>. In every state produced without the constant-step-size rule
  (the constructor, \<^verbatim>\<open>reset\<close>, \<^verbatim>\<open>act\<close>, \<^verbatim>\<open>simple_update\<close>, and \<^verbatim>\<open>train\<close> with
  \<^verbatim>\<open>use_weighted_average\<close> false), an action whose count is zero has the initial value as its
  estimate.
\<close>

theorem state_invariant:
  "(reachable ag \<longrightarrow>
      int (length (q_values ag)) = num_actions ag \<and>
      int (length (action_counts ag)) = num_actions ag) \<and>
   (sample_average_reachable ag \<longrightarrow>
      (\<forall>a < length (action_counts ag).
         action_counts ag ! a = 0 \<longrightarrow> q_values ag ! a = initialisation ag))"
proof -
  have lengths: "int (length (q_values ag)) = num_actions ag \<and>
      int (length (action_counts ag)) = num_actions ag" if "reachable ag"
  proof -
    have "wf_agent ag" using that by (rule reachable_wf)
    then show ?thesis by (simp add: wf_agent_def)
  qed
  have zero: "\<forall>a < length (action_counts ag).
         action_counts ag ! a = 0 \<longrightarrow> q_values ag ! a = initialisation ag"
    if "sample_average_reachable ag"
  proof -
    have "count_inv ag" using that by (simp add: sample_average_reachable_inv)
    then show ?thesis by (simp add: count_inv_def)
  qed
  show ?thesis using lengths zero by blast
qed

theorem state_invariant_witness:
  "reachable ((example_agent 0 10 5 False (1/10))\<lparr>action_counts := [1, 0], q_values := [4, 5]\<rparr>) \<and>
   sample_average_reachable
     ((example_agent 0 10 5 False (1/10))\<lparr>action_counts := [1, 0], q_values := [4, 5]\<rparr>) \<and>
   int (length (q_values
     ((example_agent 0 10 5 False (1/10))\<lparr>action_counts := [1, 0], q_values := [4, 5]\<rparr>))) = 2 \<and>
   q_values ((example_agent 0 10 5 False (1/10))\<lparr>action_counts := [1, 0], q_values := [4, 5]\<rparr>) ! 1
     = 5"
proof -
  let ?A = "example_agent 0 10 5 False (1/10)"
  let ?X = "?A\<lparr>action_counts := [1, 0], q_values := [4, 5]\<rparr>"
  have up: "simple_update ?A 0 4 = Inr ?X" by (simp add: example_simple_update)
  have r: "reachable ?X"
    using example_reachable [of 5 0 10 False "1/10"] up
    by (auto intro: reachable.by_simple_update)
  have s: "sample_average_reachable ?X"
    using example_sample_average_reachable [of 5 0 10 False "1/10"] up
    by (auto intro: sample_average_reachable.sa_simple_update)
  have f: "num_actions ?X = 2" "initialisation ?X = 5" "action_counts ?X ! 1 = 0"
    "(1::nat) < length (action_counts ?X)"
    by (simp_all add: example_agent_def)
  from state_invariant [of ?X] r s
  have "int (length (q_values ?X)) = num_actions ?X"
    and "\<forall>a < length (action_counts ?X).
           action_counts ?X ! a = 0 \<longrightarrow> q_values ?X ! a = initialisation ?X"
    by blast+
  with f have "int (length (q_values ?X)) = 2" "q_values ?X ! 1 = 5" by auto
  with r s show ?thesis by blast
qed

theorem weighted_update_count_counterexample:
  "reachable ((example_agent 0 10 0 True (1/2))\<lparr>q_values := [2, 0]\<rparr>) \<and>
   action_counts ((example_agent 0 10 0 True (1/2))\<lparr>q_values := [2, 0]\<rparr>) ! 0 = 0 \<and>
   q_values ((example_agent 0 10 0 True (1/2))\<lparr>q_values := [2, 0]\<rparr>) ! 0
     \<noteq> initialisation ((example_agent 0 10 0 True (1/2))\<lparr>q_values := [2, 0]\<rparr>)"
proof -
  let ?A = "example_agent 0 10 0 True (1/2)"
  have up: "weighted_update ?A 0 4 = Inr (?A\<lparr>q_values := [2, 0]\<rparr>)"
    by (simp add: example_weighted_update float64_update_values)
  have r: "reachable (?A\<lparr>q_values := [2, 0]\<rparr>)"
    using example_reachable [of 0 0 10 True "1/2"] up
    by (auto intro: reachable.by_weighted_update)
  then show ?thesis by (simp add: example_agent_def)
qed

text \<open>
  Claim C5. In every state the operations of the agent produce, \<^verbatim>\<open>act\<close> returns an index
  from 0 up to but excluding \<^verbatim>\<open>num_actions\<close>, whatever the draw. With \<^verbatim>\<open>epsilon = 0\<close> and
  one entry of \<^verbatim>\<open>q_values\<close> strictly above all others, \<^verbatim>\<open>act\<close> returns the index of that
  entry, whatever the draw.
\<close>

theorem act_index:
  assumes "reachable ag"
  shows "(\<exists>a. act ag d = Inr a \<and> 0 \<le> a \<and> a < num_actions ag) \<and>
         (epsilon ag = 0 \<longrightarrow>
            (\<forall>i < length (q_values ag).
               (\<forall>j < length (q_values ag). j \<noteq> i \<longrightarrow> q_values ag ! j < q_values ag ! i) \<longrightarrow>
               act ag d = Inr (int i)))"
proof -
  have wf: "wf_agent ag" using assms by (rule reachable_wf)
  then have "1 \<le> num_actions ag" "length (q_values ag) = nat (num_actions ag)"
    by (simp_all add: wf_agent_def)
  then have "\<exists>a. act ag d = Inr a \<and> 0 \<le> a \<and> a < num_actions ag" by (rule act_range)
  then show ?thesis by (auto intro: act_greedy)
qed

theorem act_index_witness:
  "reachable ((example_agent 0 10 0 False (1/10))\<lparr>action_counts := [0, 1], q_values := [0, 4]\<rparr>) \<and>
   act ((example_agent 0 10 0 False (1/10))\<lparr>action_counts := [0, 1], q_values := [0, 4]\<rparr>)
       \<lparr>raw_uniform = 7, raw_pick = 5, gauss = 0\<rparr> = Inr 1"
proof -
  let ?A = "example_agent 0 10 0 False (1/10)"
  let ?X = "?A\<lparr>action_counts := [0, 1], q_values := [0, 4]\<rparr>"
  have up: "simple_update ?A 1 4 = Inr ?X"
    by (simp add: simple_update_def np_index_def example_agent_def Let_def)
  have r: "reachable ?X"
    using example_reachable [of 0 0 10 False "1/10"] up
    by (auto intro: reachable.by_simple_update)
  have e: "epsilon ?X = 0" by (simp add: example_agent_def)
  have q: "q_values ?X = [0, 4]" by simp
  have i: "(1::nat) < length (q_values ?X)" by simp
  have m: "\<forall>j < length (q_values ?X). j \<noteq> 1 \<longrightarrow> q_values ?X ! j < q_values ?X ! 1"
    by (simp add: less_Suc_eq)
  from act_index [OF r, of "\<lparr>raw_uniform = 7, raw_pick = 5, gauss = 0\<rparr>"] e i m
  have "act ?X \<lparr>raw_uniform = 7, raw_pick = 5, gauss = 0\<rparr> = Inr (int 1)" by blast
  with r show ?thesis by simp
qed

text \<open>
  Claim C6. The \<^verbatim>\<open>best_action\<close> of a constructed bandit is the arg-max index of its true
  action values, the first one on ties. \<^verbatim>\<open>step\<close> hands the bandit back as it was, and
  \<^verbatim>\<open>train\<close> leaves the testbed of the agent, so every bandit in it, as it was.
\<close>

theorem bandit_stationary:
  assumes "Bandit_init kk mean std b_std ds = Inr (b, ds')"
  shows "is_first_argmax (q_star b) (best_action b) \<and>
         (\<forall>a d r b'. step b a d = Inr (r, b') \<longrightarrow> b' = b) \<and>
         (\<forall>ag ds1 rdf odf ag' ds2. train ag ds1 = Inr (rdf, odf, ag', ds2) \<longrightarrow> env ag' = env ag)"
proof (intro conjI allI impI)
  show "is_first_argmax (q_star b) (best_action b)"
    using Bandit_init_fields(5) [OF assms] by (rule np_argmax_first)
next
  fix a d r b' assume "step b a d = Inr (r, b')"
  then show "b' = b" by (rule step_Inr)
next
  fix ag ds1 rdf odf ag' ds2
  assume t: "train ag ds1 = Inr (rdf, odf, ag', ds2)"
  have "same_config ag ag' \<and> True"
    by (rule train_Inr [of "\<lambda>_. True", OF _ _ t]) simp_all
  then show "env ag' = env ag" by (simp add: same_config_fields)
qed

theorem bandit_stationary_witness:
  "Bandit_init 2 0 1 1 (example_gen 0) = Inr (example_bandit, sconst (example_draw 0)) \<and>
   is_first_argmax (q_star example_bandit) (best_action example_bandit) \<and>
   step example_bandit 0 (example_draw 2) = Inr (3, example_bandit)"
proof -
  have s: "step example_bandit 0 (example_draw 2) = Inr (3, example_bandit)"
    by (simp add: step_def np_index_def np_random_normal_def example_bandit_def
        example_draw_def)
  from bandit_stationary [OF example_bandit_init [of 0]] example_bandit_init [of 0] s
  show ?thesis by blast
qed

text \<open>
  Claim C9. A negative initial value makes the agent constructor raise: \<^verbatim>\<open>ValueError\<close> from
  \<^verbatim>\<open>reset\<close>, unless the testbed has no run at all and indexing its first bandit has raised
  before. With a non-negative initial value the constructor returns an agent on every
  constructed testbed with at least one run, all estimates at the initial value and all
  counts at zero. In every state the operations of the agent produce, \<^verbatim>\<open>reset\<close> returns and
  sets every estimate to the initial value and every count to zero.
\<close>

theorem initialisation_check:
  "(init < 0 \<longrightarrow>
      EpsilonGreedy_init e eps steps init weighted al
        = Inl (if bandits e = [] then IndexError else ValueError)) \<and>
   (0 \<le> init \<and> 1 \<le> runs \<and>
    KArmedTestbed_init runs kk mean std b_std seed gen = Inr (e, ds) \<longrightarrow>
      (\<exists>ag. EpsilonGreedy_init e eps steps init weighted al = Inr ag \<and>
            initialisation ag = init \<and> num_actions ag = kk \<and>
            q_values ag = replicate (nat kk) init \<and>
            action_counts ag = replicate (nat kk) 0)) \<and>
   (reachable ag0 \<longrightarrow>
      (\<exists>ag'. reset ag0 = Inr ag' \<and>
             q_values ag' = replicate (nat (num_actions ag0)) (initialisation ag0) \<and>
             action_counts ag' = replicate (nat (num_actions ag0)) 0 \<and>
             initialisation ag' = initialisation ag0 \<and> num_actions ag' = num_actions ag0))"
proof (intro conjI impI)
  assume "init < 0"
  then show "EpsilonGreedy_init e eps steps init weighted al
        = Inl (if bandits e = [] then IndexError else ValueError)"
    by (rule EpsilonGreedy_init_negative)
next
  assume "0 \<le> init \<and> 1 \<le> runs \<and>
    KArmedTestbed_init runs kk mean std b_std seed gen = Inr (e, ds)"
  then have tb: "KArmedTestbed_init runs kk mean std b_std seed gen = Inr (e, ds)"
    and runs: "1 \<le> runs" and init: "0 \<le> init" by simp_all
  show "\<exists>ag. EpsilonGreedy_init e eps steps init weighted al = Inr ag \<and>
            initialisation ag = init \<and> num_actions ag = kk \<and>
            q_values ag = replicate (nat kk) init \<and>
            action_counts ag = replicate (nat kk) 0"
    by (simp add: EpsilonGreedy_init_on_testbed [OF tb runs init])
next
  assume "reachable ag0"
  then have "wf_agent ag0" by (rule reachable_wf)
  then have "0 \<le> initialisation ag0" "0 \<le> num_actions ag0" by (simp_all add: wf_agent_def)
  then show "\<exists>ag'. reset ag0 = Inr ag' \<and>
             q_values ag' = replicate (nat (num_actions ag0)) (initialisation ag0) \<and>
             action_counts ag' = replicate (nat (num_actions ag0)) 0 \<and>
             initialisation ag' = initialisation ag0 \<and> num_actions ag' = num_actions ag0"
    by (simp add: reset_Inr)
qed

theorem initialisation_check_witness:
  "EpsilonGreedy_init example_testbed 0 10 (- 1) False (1/10) = Inl ValueError \<and>
   KArmedTestbed_init 1 2 0 1 1 0 example_gen = Inr (example_testbed, sconst (example_draw 0)) \<and>
   (\<exists>ag. EpsilonGreedy_init example_testbed 0 10 5 False (1/10) = Inr ag \<and>
         q_values ag = [5, 5] \<and> action_counts ag = [0, 0]) \<and>
   reachable ((example_agent 0 10 5 False (1/10))\<lparr>action_counts := [1, 0], q_values := [4, 5]\<rparr>) \<and>
   (\<exists>ag'. reset ((example_agent 0 10 5 False (1/10))
                    \<lparr>action_counts := [1, 0], q_values := [4, 5]\<rparr>) = Inr ag' \<and>
          q_values ag' = [5, 5] \<and> action_counts ag' = [0, 0])"
proof -
  let ?A = "example_agent 0 10 5 False (1/10)"
  let ?X = "?A\<lparr>action_counts := [1, 0], q_values := [4, 5]\<rparr>"
  have up: "simple_update ?A 0 4 = Inr ?X" by (simp add: example_simple_update)
  have r: "reachable ?X"
    using example_reachable [of 5 0 10 False "1/10"] up
    by (auto intro: reachable.by_simple_update)
  have b: "bandits example_testbed \<noteq> []" by (simp add: example_testbed_def)
  have f: "num_actions ?X = 2" "initialisation ?X = 5" by (simp_all add: example_agent_def)
  have two: "replicate 2 x = [x, x]" "replicate 2 y = [y, y]" for x :: real and y :: int
    by (simp_all add: numeral_2_eq_2)
  note t = example_testbed_init
  have 1: "EpsilonGreedy_init example_testbed 0 10 (- 1) False (1/10) = Inl ValueError"
    using initialisation_check [where init = "- 1" and e = example_testbed and eps = 0
        and steps = 10 and weighted = False and al = "1/10" and ?ag0.0 = ?X] b
    by simp
  have 2: "\<exists>ag. EpsilonGreedy_init example_testbed 0 10 5 False (1/10) = Inr ag \<and>
         q_values ag = [5, 5] \<and> action_counts ag = [0, 0]"
    using initialisation_check [where init = 5 and e = example_testbed and eps = 0
        and steps = 10 and weighted = False and al = "1/10" and runs = 1 and kk = 2
        and mean = 0 and std = 1 and b_std = 1 and seed = 0 and gen = example_gen
        and ds = "sconst (example_draw 0)" and ?ag0.0 = ?X] t
    by (auto simp: two)
  have 3: "\<exists>ag'. reset ?X = Inr ag' \<and> q_values ag' = [5, 5] \<and> action_counts ag' = [0, 0]"
    using initialisation_check [where ?ag0.0 = ?X, THEN conjunct2, THEN conjunct2] r
    by (auto simp: f two)
  from 1 t 2 r 3 show ?thesis by blast
qed

section \<open>Training returns\<close>

lemma step_total:
  assumes "length (q_star b) = n" "0 \<le> a" "a < int n" "0 \<le> bandit_std b"
  shows "step b a d = Inr (q_star b ! nat a + bandit_std b * gauss d, b)"
  using assms by (simp add: step_def np_index_def np_random_normal_def)

lemma update_total:
  assumes "length (q_values ag) = n" "length (action_counts ag) = n" "0 \<le> a" "a < int n"
  shows "\<exists>ag'. (if use_weighted_average ag then weighted_update ag a r
               else simple_update ag a r) = Inr ag'"
proof -
  have i: "np_index n a = Inr (nat a)" using assms(3,4) by (rule np_index_nonneg)
  show ?thesis
  proof (cases "use_weighted_average ag")
    case True
    then show ?thesis using i assms(1) by (simp add: weighted_update_Inr)
  next
    case False
    then show ?thesis using simple_update_cell [OF assms(1,2) i] by simp
  qed
qed

lemma train_step_total:
  assumes wf: "wf_agent ag"
    and b: "length (q_star b) = nat (num_actions ag)" "0 \<le> bandit_std b"
  shows "\<exists>ag' rw' op'. train_step (ag, b, rw, op) i d = Inr (ag', b, rw', op')"
proof -
  from wf have n: "1 \<le> num_actions ag" "length (q_values ag) = nat (num_actions ag)"
    "length (action_counts ag) = nat (num_actions ag)"
    by (simp_all add: wf_agent_def)
  from act_range [OF n(1,2), of d]
  obtain a where a: "act ag d = Inr a" "0 \<le> a" "a < num_actions ag" by blast
  have an: "a < int (nat (num_actions ag))" using a(3) n(1) by simp
  have st: "step b a d = Inr (q_star b ! nat a + bandit_std b * gauss d, b)"
    using b(1) a(2) an b(2) by (rule step_total)
  from update_total [OF n(2,3) a(2) an]
  obtain ag' where up: "(if use_weighted_average ag
      then weighted_update ag a (q_star b ! nat a + bandit_std b * gauss d)
      else simple_update ag a (q_star b ! nat a + bandit_std b * gauss d)) = Inr ag'"
    by blast
  show ?thesis
    unfolding train_step_def using a(1) st up by simp
qed

lemma train_steps_total:
  assumes "wf_agent ag" "length (q_star b) = nat (num_actions ag)" "0 \<le> bandit_std b"
  shows "\<exists>ag' rw' op' ds'. train_steps steps (ag, b, rw, op) ds = Inr ((ag', b, rw', op'), ds')"
  using assms
proof (induction steps arbitrary: ag rw op ds)
  case Nil
  then show ?case by simp
next
  case (Cons i steps)
  from train_step_total [OF Cons.prems, of rw op i "shd ds"]
  obtain ag1 rw1 op1 where one: "train_step (ag, b, rw, op) i (shd ds) = Inr (ag1, b, rw1, op1)"
    by blast
  from train_step_Inr(4) [OF one] obtain a r where
    up: "(if use_weighted_average ag then weighted_update ag a r
          else simple_update ag a r) = Inr ag1" by blast
  have wf1: "wf_agent ag1" using Cons.prems(1) up by (rule wf_agent_update)
  have "num_actions ag1 = num_actions ag"
    using update_same(1) [OF up] by (rule same_config_fields)
  then have b1: "length (q_star b) = nat (num_actions ag1)" using Cons.prems(2) by simp
  from Cons.IH [OF wf1 b1 Cons.prems(3), of rw1 op1 "stl ds"] one
  show ?case by simp
qed

lemma train_run_total:
  assumes wf: "wf_agent ag" and steps: "0 \<le> max_steps ag"
    and b: "length (q_star b) = nat (num_actions ag)" "0 \<le> bandit_std b"
  shows "\<exists>ag' rw op ds'. train_run ag b ds = Inr ((ag', b, rw, op), ds')"
proof -
  from wf have "0 \<le> initialisation ag" "0 \<le> num_actions ag" by (simp_all add: wf_agent_def)
  then obtain ag1 where r: "reset ag = Inr ag1" by (simp add: reset_Inr)
  have wf1: "wf_agent ag1" using wf r by (rule wf_agent_reset)
  note s = same_config_fields [OF reset_same(1) [OF r]]
  have z: "np_zeros (max_steps ag1) = Inr (replicate (nat (max_steps ag1)) (0::real))"
    using steps s(3) by (simp add: np_zeros_def)
  have b1: "length (q_star b) = nat (num_actions ag1)" using b(1) s(4) by simp
  from train_steps_total [OF wf1 b1 b(2)]
  obtain ag' rw op ds' where
    "train_steps [0..<nat (max_steps ag1)]
       (ag1, b, replicate (nat (max_steps ag1)) 0, replicate (nat (max_steps ag1)) False) ds
     = Inr ((ag', b, rw, op), ds')"
    by blast
  then show ?thesis
    unfolding train_run_def using r z by simp
qed

lemma dict_set_fresh: "key \<notin> fst ` set kvs \<Longrightarrow> dict_set kvs key v = kvs @ [(key, v)]"
  by (induction kvs) auto

lemma train_runs_total:
  assumes "wf_agent ag" "0 \<le> max_steps ag" "0 \<le> testbed_bandit_std (env ag)"
    and "\<forall>r \<in> set rs. r < length (bandits (env ag))"
    and "distinct rs" "set rs \<inter> fst ` set rt = {}" "set rs \<inter> fst ` set ot = {}"
  shows "\<exists>ag' rt' ot' ds'. train_runs rs ag rt ot ds = Inr (ag', rt', ot', ds') \<and>
           map fst rt' = map fst rt @ rs \<and> map fst ot' = map fst ot @ rs \<and>
           (\<forall>c \<in> set rt'. c \<in> set rt \<or> length (snd c) = nat (max_steps ag)) \<and>
           (\<forall>c \<in> set ot'. c \<in> set ot \<or> length (snd c) = nat (max_steps ag))"
  using assms
proof (induction rs arbitrary: ag rt ot ds)
  case Nil
  then show ?case by simp
next
  case (Cons r rs)
  let ?b = "bandits (env ag) ! r"
  have "?b \<in> set (bandits (env ag))" using Cons.prems(4) by simp
  with Cons.prems(1,3) have b: "length (q_star ?b) = nat (num_actions ag)" "0 \<le> bandit_std ?b"
    by (simp_all add: wf_agent_def)
  from train_run_total [OF Cons.prems(1,2) b, of ds]
  obtain ag1 rw op ds1 where one: "train_run ag ?b ds = Inr ((ag1, ?b, rw, op), ds1)" by blast
  from train_run_Inr [of wf_agent, OF wf_agent_update wf_agent_reset one Cons.prems(1)]
  have f: "same_config ag ag1" "wf_agent ag1"
    "length rw = nat (max_steps ag)" "length op = nat (max_steps ag)"
    by simp_all
  note s = same_config_fields [OF f(1)]
  have restore: "ag1\<lparr>env := (env ag1)\<lparr>bandits := (bandits (env ag1))[r := ?b]\<rparr>\<rparr> = ag1"
    using f(1) by (rule restore_bandit) simp
  have rt1: "dict_set rt r rw = rt @ [(r, rw)]" using Cons.prems(6) by (simp add: dict_set_fresh)
  have ot1: "dict_set ot r op = ot @ [(r, op)]" using Cons.prems(7) by (simp add: dict_set_fresh)
  have p: "0 \<le> max_steps ag1" "0 \<le> testbed_bandit_std (env ag1)"
    "\<forall>r \<in> set rs. r < length (bandits (env ag1))" "distinct rs"
    "set rs \<inter> fst ` set (rt @ [(r, rw)]) = {}" "set rs \<inter> fst ` set (ot @ [(r, op)]) = {}"
    using Cons.prems(2-7) s(1,3) by auto
  from Cons.IH [OF f(2) p, of ds1]
  obtain ag' rt' ot' ds' where
    rest: "train_runs rs ag1 (rt @ [(r, rw)]) (ot @ [(r, op)]) ds1 = Inr (ag', rt', ot', ds')" and
    keys: "map fst rt' = map fst (rt @ [(r, rw)]) @ rs" "map fst ot' = map fst (ot @ [(r, op)]) @ rs" and
    cols: "\<forall>c \<in> set rt'. c \<in> set (rt @ [(r, rw)]) \<or> length (snd c) = nat (max_steps ag1)"
      "\<forall>c \<in> set ot'. c \<in> set (ot @ [(r, op)]) \<or> length (snd c) = nat (max_steps ag1)"
    by blast
  have run: "train_runs (r # rs) ag rt ot ds = Inr (ag', rt', ot', ds')"
    using one restore rt1 ot1 rest by simp
  have c1: "\<forall>c \<in> set rt'. c \<in> set rt \<or> length (snd c) = nat (max_steps ag)"
    using cols(1) f(3) s(3) by auto
  have c2: "\<forall>c \<in> set ot'. c \<in> set ot \<or> length (snd c) = nat (max_steps ag)"
    using cols(2) f(4) s(3) by auto
  from run keys c1 c2 show ?case by simp
qed

lemma pd_DataFrame_shape:
  assumes "d \<noteq> []" "\<forall>c \<in> set d. length (snd c) = m"
  shows "\<exists>df. pd_DataFrame d = Inr df \<and> shape df = (m, length d) \<and> columns df = map fst d"
proof -
  from assms(1) obtain c cs where d: "d = c # cs" by (cases d) auto
  have "\<forall>x \<in> set d. length (snd x) = length (snd (hd d))"
    using assms(2) d by simp
  then have "pd_DataFrame d = Inr \<lparr>columns = map fst d, column_data = map snd d\<rparr>"
    by (simp add: pd_DataFrame_def)
  moreover have "shape \<lparr>columns = map fst d, column_data = map snd d\<rparr> = (m, length d)"
    using assms(2) d by (simp add: shape_def)
  ultimately show ?thesis by simp
qed

lemma train_total:
  assumes wf: "wf_agent ag" and steps: "0 \<le> max_steps ag"
    and std: "0 \<le> testbed_bandit_std (env ag)"
  shows "\<exists>rdf odf ag' ds'. train ag ds = Inr (rdf, odf, ag', ds') \<and>
           shape rdf = (nat (max_steps ag), length (bandits (env ag))) \<and>
           shape odf = (nat (max_steps ag), length (bandits (env ag))) \<and>
           columns rdf = [0..<length (bandits (env ag))] \<and>
           columns odf = [0..<length (bandits (env ag))]"
proof -
  let ?n = "length (bandits (env ag))"
  have n: "0 < ?n" using wf by (simp add: wf_agent_def)
  from train_runs_total [OF wf steps std, of "[0..<?n]" "[]" "[]" ds]
  obtain ag' rt ot ds' where
    run: "train_runs [0..<?n] ag [] [] ds = Inr (ag', rt, ot, ds')" and
    keys: "map fst rt = [0..<?n]" "map fst ot = [0..<?n]" and
    cols: "\<forall>c \<in> set rt. length (snd c) = nat (max_steps ag)"
      "\<forall>c \<in> set ot. length (snd c) = nat (max_steps ag)"
    by auto
  have len: "length rt = ?n" "length ot = ?n"
    using keys [THEN arg_cong, of length] by simp_all
  then have ne: "rt \<noteq> []" "ot \<noteq> []" using n by auto
  from pd_DataFrame_shape [OF ne(1) cols(1)] obtain rdf where
    rdf: "pd_DataFrame rt = Inr rdf" "shape rdf = (nat (max_steps ag), length rt)"
      "columns rdf = map fst rt" by blast
  from pd_DataFrame_shape [OF ne(2) cols(2)] obtain odf where
    odf: "pd_DataFrame ot = Inr odf" "shape odf = (nat (max_steps ag), length ot)"
      "columns odf = map fst ot" by blast
  have "train ag ds = Inr (rdf, odf, ag', ds')"
    unfolding train_def using run rdf(1) odf(1) by simp
  with rdf(2,3) odf(2,3) keys len show ?thesis by simp
qed

text \<open>
  Claim C7. In every state the operations of the agent produce, with a non-negative step
  budget and a non-negative noise deviation, \<^verbatim>\<open>train\<close> returns two tables, the rewards and
  the optimal-action indicators, each with \<^verbatim>\<open>max_steps\<close> rows and \<^verbatim>\<open>num_runs\<close> columns, the
  columns keyed by the runs in the order of the testbed.
\<close>

theorem train_shape:
  assumes "reachable ag" "0 \<le> max_steps ag" "0 \<le> testbed_bandit_std (env ag)"
  shows "\<exists>rdf odf ag' ds'. train ag ds = Inr (rdf, odf, ag', ds') \<and>
           shape rdf = (nat (max_steps ag), nat (num_runs (env ag))) \<and>
           shape odf = (nat (max_steps ag), nat (num_runs (env ag))) \<and>
           columns rdf = [0..<nat (num_runs (env ag))] \<and>
           columns odf = [0..<nat (num_runs (env ag))]"
proof -
  have wf: "wf_agent ag" using assms(1) by (rule reachable_wf)
  then have "nat (num_runs (env ag)) = length (bandits (env ag))" by (simp add: wf_agent_def)
  with train_total [OF wf assms(2,3), of ds] show ?thesis by simp
qed

theorem train_shape_witness:
  "reachable (example_agent (1/10) 3 0 False (1/10)) \<and>
   (\<exists>rdf odf ag' ds'.
      train (example_agent (1/10) 3 0 False (1/10)) (sconst (example_draw 0))
        = Inr (rdf, odf, ag', ds') \<and>
      shape rdf = (3, 1) \<and> shape odf = (3, 1) \<and> columns rdf = [0] \<and> columns odf = [0])"
proof -
  let ?A = "example_agent (1/10) 3 0 False (1/10)"
  have r: "reachable ?A" by (simp add: example_reachable)
  have f: "max_steps ?A = 3" "testbed_bandit_std (env ?A) = 1" "num_runs (env ?A) = 1"
    by (simp_all add: example_agent_def example_testbed_def)
  have s: "0 \<le> max_steps ?A" "0 \<le> testbed_bandit_std (env ?A)" by (simp_all add: f)
  from train_shape [OF r s, of "sconst (example_draw 0)"] r
  show ?thesis by (simp add: f)
qed

end
